theory Spec2Isabelle
  imports Main "HOL-Library.FSet" "HOL-Library.While_Combinator" "HOL-Library.Product_Lexorder"
begin

section \<open>Data model of \<^verbatim>\<open>minesweeper.py\<close>\<close>

text \<open>
  A cell is a Python tuple \<^verbatim>\<open>(i, j)\<close> of unbounded integers. Python sets of cells are
  finite sets, compared by content as Python's \<^verbatim>\<open>==\<close> on sets does.
\<close>

type_synonym cell = "int \<times> int"

text \<open>
  \<^verbatim>\<open>class Sentence\<close>: the fields \<^verbatim>\<open>cells\<close> and \<^verbatim>\<open>count\<close>. Equality of records is
  \<^verbatim>\<open>Sentence.__eq__\<close> (same cells and same count).
\<close>

record sentence =
  cells :: "cell fset"
  count :: int

text \<open>\<^verbatim>\<open>Sentence.__init__\<close> copies the given set and stores the count.\<close>

definition Sentence :: "cell fset \<Rightarrow> int \<Rightarrow> sentence" where
  "Sentence cs k = \<lparr>cells = cs, count = k\<rparr>"

text \<open>\<^verbatim>\<open>Sentence.known_mines\<close> and \<^verbatim>\<open>Sentence.known_safes\<close>; Python's \<^verbatim>\<open>None\<close> is \<open>None\<close>.\<close>

definition known_mines :: "sentence \<Rightarrow> cell fset option" where
  "known_mines s =
     (if count s = int (fcard (cells s)) \<and> count s > 0 then Some (cells s) else None)"

definition known_safes :: "sentence \<Rightarrow> cell fset option" where
  "known_safes s =
     (if count s = 0 \<and> fcard (cells s) > 0 then Some (cells s) else None)"

text \<open>
  \<^verbatim>\<open>Sentence.mark_mine\<close> and \<^verbatim>\<open>Sentence.mark_safe\<close> mutate the sentence in place; the
  model returns the updated sentence. \<^verbatim>\<open>set.discard\<close> removes the cell if present.
\<close>

definition sentence_mark_mine :: "sentence \<Rightarrow> cell \<Rightarrow> sentence" where
  "sentence_mark_mine s c =
     (if c |\<in>| cells s then s\<lparr>count := count s - 1, cells := cells s |-| {|c|}\<rparr> else s)"

definition sentence_mark_safe :: "sentence \<Rightarrow> cell \<Rightarrow> sentence" where
  "sentence_mark_safe s c = s\<lparr>cells := cells s |-| {|c|}\<rparr>"

text \<open>
  \<^verbatim>\<open>class MinesweeperAI\<close>: the grid size, the three sets of cells and the list of sentences.
  The list owns its sentences exclusively, so the in-place updates of the source are
  updates of the list's elements.
\<close>

record agent =
  height :: int
  width :: int
  moves_made :: "cell fset"
  mines :: "cell fset"
  safes :: "cell fset"
  knowledge :: "sentence list"

definition MinesweeperAI :: "int \<Rightarrow> int \<Rightarrow> agent" where
  "MinesweeperAI h w =
     \<lparr>height = h, width = w, moves_made = {||}, mines = {||}, safes = {||}, knowledge = []\<rparr>"

text \<open>\<^verbatim>\<open>MinesweeperAI.mark_mine\<close> and \<^verbatim>\<open>MinesweeperAI.mark_safe\<close>.\<close>

definition mark_mine :: "agent \<Rightarrow> cell \<Rightarrow> agent" where
  "mark_mine a c =
     a\<lparr>mines := finsert c (mines a),
       knowledge := map (\<lambda>s. sentence_mark_mine s c) (knowledge a)\<rparr>"

definition mark_safe :: "agent \<Rightarrow> cell \<Rightarrow> agent" where
  "mark_safe a c =
     a\<lparr>safes := finsert c (safes a),
       knowledge := map (\<lambda>s. sentence_mark_safe s c) (knowledge a)\<rparr>"

text \<open>
  Python leaves the order in which a \<^verbatim>\<open>for\<close> loop visits a set unspecified. Every function
  that iterates over a set takes the order as a parameter: \<open>ord S\<close> is the list of cells in
  the order the loop visits them. The theorems hold for every order that visits exactly
  the elements of the set.
\<close>

type_synonym iteration_order = "cell fset \<Rightarrow> cell list"

definition enumerates :: "iteration_order \<Rightarrow> bool" where
  "enumerates ord = (\<forall>S. set (ord S) = fset S)"

section \<open>Fact extraction: \<^verbatim>\<open>additional_check\<close>\<close>

text \<open>
  \<^verbatim>\<open>additional_check\<close> walks over a deep copy of the knowledge base, which the value
  \<open>knowledge a\<close> taken at entry is. For every sentence of the copy it first removes from the
  live list the first sentence equal to an empty one (\<^verbatim>\<open>list.remove\<close>, a missing element
  being ignored), then marks every cell the copied sentence concludes on, calling itself
  after each marking. The two loops are \<open>check_sentences\<close> and \<open>check_cells\<close>; they take the
  recursive call as the argument \<open>recur\<close>. That the recursion ends is a property to be
  proved, so the procedure is a partial function: \<open>None\<close> is "does not return".
\<close>

fun check_cells ::
  "(agent \<Rightarrow> agent option) \<Rightarrow> (agent \<Rightarrow> cell \<Rightarrow> agent) \<Rightarrow> cell list \<Rightarrow> agent \<Rightarrow> agent option" where
  "check_cells recur mark [] a = Some a"
| "check_cells recur mark (c # cs) a =
     Option.bind (recur (mark a c)) (check_cells recur mark cs)"

fun check_sentences ::
  "iteration_order \<Rightarrow> (agent \<Rightarrow> agent option) \<Rightarrow> sentence list \<Rightarrow> agent \<Rightarrow> agent option" where
  "check_sentences ord recur [] a = Some a"
| "check_sentences ord recur (s # ss) a =
     (let a1 = (if fcard (cells s) \<le> 0
                then a\<lparr>knowledge := remove1 s (knowledge a)\<rparr> else a)
      in Option.bind
           (case known_mines s of
              Some cs \<Rightarrow> check_cells recur mark_mine (ord cs) a1
            | None \<Rightarrow>
               (case known_safes s of
                  Some cs \<Rightarrow> check_cells recur mark_safe (ord cs) a1
                | None \<Rightarrow> Some a1))
           (check_sentences ord recur ss))"

lemma check_cells_mono [partial_function_mono]:
  assumes "\<And>x. mono_option (\<lambda>f. R f x)"
  shows "mono_option (\<lambda>f. check_cells (R f) mark cs a)"
  using assms
proof (induction cs arbitrary: a)
  case Nil
  then show ?case by (simp add: option.const_mono)
next
  case (Cons c cs)
  show ?case
    unfolding check_cells.simps
    by (rule bind_mono) (use Cons in auto)
qed

lemma check_sentences_mono [partial_function_mono]:
  assumes "\<And>x. mono_option (\<lambda>f. R f x)"
  shows "mono_option (\<lambda>f. check_sentences ord (R f) ss a)"
  using assms
proof (induction ss arbitrary: a)
  case Nil
  then show ?case by (simp add: option.const_mono)
next
  case (Cons s ss)
  show ?case
    unfolding check_sentences.simps Let_def
    apply (rule bind_mono)
    subgoal
      by (cases "known_mines s"; cases "known_safes s")
         (auto intro!: check_cells_mono Cons.prems option.const_mono)
    subgoal by (rule Cons.IH) (rule Cons.prems)
    done
qed

partial_function (option) additional_check :: "iteration_order \<Rightarrow> agent \<Rightarrow> agent option" where
  "additional_check ord a = check_sentences ord (additional_check ord) (knowledge a) a"

declare additional_check.simps [code]

section \<open>Constraint derivation: \<^verbatim>\<open>inference\<close>\<close>

text \<open>
  The body of the two nested \<^verbatim>\<open>for\<close> loops, for the sentences at the positions \<open>i\<close> and
  \<open>j\<close> of the live list. Both loops run over \<^verbatim>\<open>self.knowledge\<close> itself: the marking
  updates the sentences in place and \<^verbatim>\<open>append\<close> lengthens the list under the iterators.
\<close>

definition infer_pair ::
  "iteration_order \<Rightarrow> nat \<Rightarrow> nat \<Rightarrow> agent \<times> bool \<Rightarrow> agent \<times> bool" where
  "infer_pair ord i j ac =
     (let (a, checkNeed) = ac; s1 = knowledge a ! i; s2 = knowledge a ! j in
      if cells s1 |\<subseteq>| cells s2 then
        (let s3 = Sentence (cells s2 |-| cells s1) (count s2 - count s1) in
         if fcard (cells s3) > 0 \<and> s3 \<notin> set (knowledge a) then
           (case known_mines s3 of
              Some cs \<Rightarrow> (foldl mark_mine a (ord cs), True)
            | None \<Rightarrow>
               (case known_safes s3 of
                  Some cs \<Rightarrow> (foldl mark_safe a (ord cs), True)
                | None \<Rightarrow> (a\<lparr>knowledge := knowledge a @ [s3]\<rparr>, checkNeed)))
         else (a, checkNeed))
      else (a, checkNeed))"

text \<open>
  A Python list iterator is a position that is compared with the current length before
  every step. The nested loops are therefore one loop over the pair of positions
  \<open>(i, j)\<close>: while \<open>j\<close> is inside the list the body runs and \<open>j\<close> advances; when the inner
  iterator is exhausted the outer one advances and the inner one restarts. The loop need
  not terminate on every conceivable state (next to a sentence with no cells and a
  negative count the list grows forever), so the result is optional; on the states that
  valid observations lead to it terminates, as is proved below.
\<close>

type_synonym infer_state = "nat \<times> nat \<times> agent \<times> bool"

definition infer_cond :: "infer_state \<Rightarrow> bool" where
  "infer_cond st = (case st of (i, j, a, checkNeed) \<Rightarrow> i < length (knowledge a))"

definition infer_step :: "iteration_order \<Rightarrow> infer_state \<Rightarrow> infer_state" where
  "infer_step ord st =
     (case st of (i, j, a, checkNeed) \<Rightarrow>
        if j < length (knowledge a)
        then (case infer_pair ord i j (a, checkNeed) of
                (a', checkNeed') \<Rightarrow> (i, j + 1, a', checkNeed'))
        else (i + 1, 0, a, checkNeed))"

definition inference :: "iteration_order \<Rightarrow> agent \<Rightarrow> agent option" where
  "inference ord a =
     (case while_option infer_cond (infer_step ord) (0, 0, a, False) of
        None \<Rightarrow> None
      | Some (i, j, a', checkNeed) \<Rightarrow>
          if checkNeed then additional_check ord a' else Some a')"

section \<open>Observations: \<^verbatim>\<open>add_knowledge\<close>\<close>

text \<open>
  The nested function \<^verbatim>\<open>sentenceOfSurroundings\<close>: the clipped ranges, then the double
  loop over the block, which decrements the count for a known mine and collects the cells
  that are neither known mines nor known safes.
\<close>

definition sentenceOfSurroundings :: "agent \<Rightarrow> cell \<Rightarrow> int \<Rightarrow> sentence option" where
  "sentenceOfSurroundings a cell cnt =
     (let to_height = fst cell + 2;
          to_width = snd cell + 2;
          from_height = fst cell - 1;
          from_width = snd cell - 1;
          from_height = (if from_height < 0 then 0 else from_height);
          from_width = (if from_width < 0 then 0 else from_width);
          to_height = (if to_height > height a then height a else to_height);
          to_width = (if to_width > width a then width a else to_width);
          (count2, cs) =
            foldl (\<lambda>(count2, cs) ij.
                     if ij |\<in>| mines a then (count2 - 1, cs)
                     else if ij |\<notin>| safes a then (count2, finsert ij cs)
                     else (count2, cs))
                  (cnt, {||})
                  (List.product [from_height..to_height - 1] [from_width..to_width - 1])
      in if fcard cs > 0 then Some (Sentence cs count2) else None)"

text \<open>Steps 1 to 3 of \<^verbatim>\<open>add_knowledge\<close>: record the move, mark the cell safe, add the sentence.\<close>

definition record_observation :: "agent \<Rightarrow> cell \<Rightarrow> int \<Rightarrow> agent" where
  "record_observation a cell cnt =
     (let a1 = a\<lparr>moves_made := finsert cell (moves_made a)\<rparr>;
          a2 = mark_safe a1 cell
      in case sentenceOfSurroundings a2 cell cnt of
           Some sent \<Rightarrow> a2\<lparr>knowledge := knowledge a2 @ [sent]\<rparr>
         | None \<Rightarrow> a2)"

text \<open>\<^verbatim>\<open>add_knowledge\<close>: steps 1 to 3, then \<^verbatim>\<open>additional_check\<close>, then \<^verbatim>\<open>inference\<close>.\<close>

definition add_knowledge :: "iteration_order \<Rightarrow> agent \<Rightarrow> cell \<Rightarrow> int \<Rightarrow> agent option" where
  "add_knowledge ord a cell cnt =
     Option.bind (additional_check ord (record_observation a cell cnt)) (inference ord)"

section \<open>Move selection\<close>

text \<open>
  \<^verbatim>\<open>make_safe_move\<close> returns the first cell the loop over \<^verbatim>\<open>safes - moves_made\<close> visits.
  The agent is returned with the answer, so that what the call does to it can be stated.
\<close>

definition make_safe_move :: "iteration_order \<Rightarrow> agent \<Rightarrow> cell option \<times> agent" where
  "make_safe_move ord a =
     (case ord (safes a |-| moves_made a) of
        [] \<Rightarrow> (None, a)
      | c # _ \<Rightarrow> (Some c, a))"

text \<open>
  \<^verbatim>\<open>make_random_move\<close> draws pairs with \<^verbatim>\<open>random.randrange\<close> until one is free. The model
  is given the pairs that the generator produces, in order; \<^verbatim>\<open>randrange(n)\<close> raises
  \<^verbatim>\<open>ValueError\<close> for \<open>n \<le> 0\<close>. A call that has used up the given draws without finding a
  free cell is still drawing.
\<close>

datatype move_result = Returns "cell option" | ValueError | StillDrawing

fun random_search :: "agent \<Rightarrow> cell list \<Rightarrow> move_result" where
  "random_search a [] = StillDrawing"
| "random_search a (ij # draws) =
     (if ij |\<notin>| moves_made a |\<union>| mines a then Returns (Some ij) else random_search a draws)"

definition make_random_move :: "agent \<Rightarrow> cell list \<Rightarrow> move_result \<times> agent" where
  "make_random_move a draws =
     (if int (fcard (moves_made a)) + int (fcard (mines a)) < height a * width a
      then (if height a \<le> 0 \<or> width a \<le> 0 then (ValueError, a)
            else (random_search a draws, a))
      else (Returns None, a))"

section \<open>The game board and runs of observations\<close>

text \<open>
  \<^verbatim>\<open>class Minesweeper\<close>: the size and the board, the board being the set of cells that hold
  a mine. \<^verbatim>\<open>nearby_mines\<close> loops over the block around the cell.
\<close>

record minesweeper =
  board_height :: int
  board_width :: int
  board :: "cell fset"

definition nearby_mines :: "minesweeper \<Rightarrow> cell \<Rightarrow> int" where
  "nearby_mines g cell =
     foldl (\<lambda>cnt ij.
              if ij = cell then cnt
              else if 0 \<le> fst ij \<and> fst ij < board_height g \<and>
                      0 \<le> snd ij \<and> snd ij < board_width g
                   then (if ij |\<in>| board g then cnt + 1 else cnt)
                   else cnt)
           0
           (List.product [fst cell - 1..fst cell + 1] [snd cell - 1..snd cell + 1])"

text \<open>
  A valid observation probes a cell of the grid that holds no mine and reports the
  board's own count for it. A run feeds a list of observations to the agent, one
  \<^verbatim>\<open>add_knowledge\<close> call each.
\<close>

definition in_grid :: "int \<Rightarrow> int \<Rightarrow> cell \<Rightarrow> bool" where
  "in_grid h w c = (0 \<le> fst c \<and> fst c < h \<and> 0 \<le> snd c \<and> snd c < w)"

definition valid_probe :: "minesweeper \<Rightarrow> cell \<Rightarrow> bool" where
  "valid_probe g c = (in_grid (board_height g) (board_width g) c \<and> c |\<notin>| board g)"

fun observe_all :: "iteration_order \<Rightarrow> agent \<Rightarrow> (cell \<times> int) list \<Rightarrow> agent option" where
  "observe_all ord a [] = Some a"
| "observe_all ord a (ob # obs) =
     Option.bind (add_knowledge ord a (fst ob) (snd ob)) (\<lambda>a'. observe_all ord a' obs)"

definition play :: "iteration_order \<Rightarrow> minesweeper \<Rightarrow> cell list \<Rightarrow> agent option" where
  "play ord g probes =
     observe_all ord (MinesweeperAI (board_height g) (board_width g))
       (map (\<lambda>c. (c, nearby_mines g c)) probes)"

section \<open>Notions used in the statements and proofs\<close>

text \<open>
  The cells of the grid within one row and one column of a cell, the cell included
  (\<open>block\<close>), and without the cell (\<open>neighbours\<close>, the in-bounds 8-neighbourhood).
\<close>

definition block :: "int \<Rightarrow> int \<Rightarrow> cell \<Rightarrow> cell fset" where
  "block h w cell =
     ffilter (in_grid h w)
       (fset_of_list (List.product [fst cell - 1..fst cell + 1] [snd cell - 1..snd cell + 1]))"

definition neighbours :: "int \<Rightarrow> int \<Rightarrow> cell \<Rightarrow> cell fset" where
  "neighbours h w cell = block h w cell |-| {|cell|}"

text \<open>The cells of a grid of the given height and width.\<close>

definition grid_cells :: "int \<Rightarrow> int \<Rightarrow> cell fset" where
  "grid_cells h w = fset_of_list (List.product [0..h - 1] [0..w - 1])"

text \<open>
  The number of (cell, sentence) memberships of the live knowledge base, the measure by
  which \<^verbatim>\<open>additional_check\<close> terminates.
\<close>

definition memberships :: "agent \<Rightarrow> nat" where
  "memberships a = sum_list (map (\<lambda>s. fcard (cells s)) (knowledge a))"

text \<open>
  A sentence is truthful for a board when its count is the number of its cells that hold
  a mine and its cells are cells of the grid. An agent is consistent with a board when
  its known mines are mines, its known safes are not, its moves are cells of the grid
  known to be safe, and every sentence of its knowledge base is truthful and mentions no
  cell whose status is known.
\<close>

definition truthful :: "minesweeper \<Rightarrow> sentence \<Rightarrow> bool" where
  "truthful g s \<longleftrightarrow>
     count s = int (fcard (cells s |\<inter>| board g)) \<and>
     fBall (cells s) (in_grid (board_height g) (board_width g))"

definition consistent :: "minesweeper \<Rightarrow> agent \<Rightarrow> bool" where
  "consistent g a \<longleftrightarrow>
     height a = board_height g \<and> width a = board_width g \<and>
     mines a |\<subseteq>| board g \<and> safes a |\<inter>| board g = {||} \<and>
     moves_made a |\<subseteq>| safes a \<and>
     fBall (moves_made a) (in_grid (board_height g) (board_width g)) \<and>
     fBall (mines a) (in_grid (board_height g) (board_width g)) \<and>
     (\<forall>s \<in> set (knowledge a).
        truthful g s \<and> cells s |\<inter>| (mines a |\<union>| safes a) = {||})"

text \<open>
  The states the double loop of \<^verbatim>\<open>inference\<close> goes through when it is started on the
  agent \<open>a0\<close>: the initial state, and the state after each step taken while the loop
  condition holds.
\<close>

inductive infer_visits :: "iteration_order \<Rightarrow> agent \<Rightarrow> infer_state \<Rightarrow> bool"
  for ord :: iteration_order and a0 :: agent where
  start: "infer_visits ord a0 (0, 0, a0, False)"
| step: "infer_visits ord a0 st \<Longrightarrow> infer_cond st \<Longrightarrow> infer_visits ord a0 (infer_step ord st)"

text \<open>
  The cells of the grid whose status the agent does not know, and the variant of the
  double loop of \<^verbatim>\<open>inference\<close>: a marking resolves a cell; otherwise an appended
  sentence is a truthful sentence that the knowledge base did not hold, and there are
  finitely many of these; otherwise a position advances in a list that did not grow.
\<close>

definition unresolved :: "minesweeper \<Rightarrow> agent \<Rightarrow> cell fset" where
  "unresolved g a =
     grid_cells (board_height g) (board_width g) |-| (mines a |\<union>| safes a)"

definition infer_measure :: "minesweeper \<Rightarrow> infer_state \<Rightarrow> nat \<times> nat \<times> nat \<times> nat" where
  "infer_measure g st =
     (case st of (i, j, a, checkNeed) \<Rightarrow>
        (fcard (unresolved g a),
         card ({s. truthful g s} - set (knowledge a)),
         length (knowledge a) - i,
         length (knowledge a) - j))"

text \<open>
  What it takes for a property \<open>I\<close> of the agent to survive the closure procedures: it
  survives the removal of a sentence, the marking of a cell that a sentence concludes
  on, and the addition of a derived sentence. The sentences concluded from are those of
  the copies that \<^verbatim>\<open>additional_check\<close> makes, which may be stale, and those that
  \<^verbatim>\<open>inference\<close> derives; \<open>G\<close> is what is known of them.
\<close>

definition closure_preserves ::
  "iteration_order \<Rightarrow> (agent \<Rightarrow> bool) \<Rightarrow> (sentence \<Rightarrow> bool) \<Rightarrow> bool" where
  "closure_preserves ord I G \<longleftrightarrow>
     (\<forall>x s. I x \<longrightarrow> s \<in> set (knowledge x) \<longrightarrow> G s) \<and>
     (\<forall>x s. I x \<longrightarrow> I (x\<lparr>knowledge := remove1 s (knowledge x)\<rparr>)) \<and>
     (\<forall>x s c. G s \<longrightarrow> known_mines s = Some (cells s) \<longrightarrow>
        c \<in> set (ord (cells s)) \<longrightarrow> I x \<longrightarrow> I (mark_mine x c)) \<and>
     (\<forall>x s c. G s \<longrightarrow> known_safes s = Some (cells s) \<longrightarrow>
        c \<in> set (ord (cells s)) \<longrightarrow> I x \<longrightarrow> I (mark_safe x c)) \<and>
     (\<forall>x s1 s2. I x \<longrightarrow> s1 \<in> set (knowledge x) \<longrightarrow> s2 \<in> set (knowledge x) \<longrightarrow>
        cells s1 |\<subseteq>| cells s2 \<longrightarrow>
        G (Sentence (cells s2 |-| cells s1) (count s2 - count s1))) \<and>
     (\<forall>x s1 s2 s3. I x \<longrightarrow> s1 \<in> set (knowledge x) \<longrightarrow> s2 \<in> set (knowledge x) \<longrightarrow>
        cells s1 |\<subseteq>| cells s2 \<longrightarrow>
        s3 = Sentence (cells s2 |-| cells s1) (count s2 - count s1) \<longrightarrow>
        cells s3 \<noteq> {||} \<longrightarrow> known_mines s3 = None \<longrightarrow> known_safes s3 = None \<longrightarrow>
        I (x\<lparr>knowledge := knowledge x @ [s3]\<rparr>))"

section \<open>Sentence queries and marking\<close>

text \<open>
  Claim C5. For every sentence, \<^verbatim>\<open>known_mines\<close> returns the cells exactly when the count
  equals the number of cells and is positive, and nothing otherwise; \<^verbatim>\<open>known_safes\<close>
  returns the cells exactly when the count is zero and there is at least one cell, and
  nothing otherwise. A sentence with count zero and no cells gets nothing from both.
\<close>

theorem sentence_query_contract:
  "(count s = int (fcard (cells s)) \<and> 0 < count s \<longrightarrow> known_mines s = Some (cells s)) \<and>
   (\<not> (count s = int (fcard (cells s)) \<and> 0 < count s) \<longrightarrow> known_mines s = None) \<and>
   (count s = 0 \<and> 0 < fcard (cells s) \<longrightarrow> known_safes s = Some (cells s)) \<and>
   (\<not> (count s = 0 \<and> 0 < fcard (cells s)) \<longrightarrow> known_safes s = None) \<and>
   (count s = 0 \<and> cells s = {||} \<longrightarrow> known_mines s = None \<and> known_safes s = None)"
  by (auto simp add: known_mines_def known_safes_def fcard_fempty)

theorem sentence_query_contract_witness:
  "known_mines (Sentence {||} 0) = None \<and> known_safes (Sentence {||} 0) = None \<and>
   known_mines (Sentence {|(0, 1), (1, 1)|} 2) = Some {|(0, 1), (1, 1)|} \<and>
   known_safes (Sentence {|(0, 1), (1, 1)|} 0) = Some {|(0, 1), (1, 1)|}"
  using sentence_query_contract [of "Sentence {||} 0"]
    sentence_query_contract [of "Sentence {|(0, 1), (1, 1)|} 2"]
    sentence_query_contract [of "Sentence {|(0, 1), (1, 1)|} 0"]
  by (simp add: Sentence_def fcard_finsert_if)

text \<open>
  Claim C6. For every sentence and cell, \<^verbatim>\<open>mark_mine\<close> removes a member cell and lowers
  the count by one, and changes nothing for a cell that is not a member; \<^verbatim>\<open>mark_safe\<close>
  removes the cell and keeps the count, and changes nothing for a cell that is not a
  member. Applying either operation twice with the same cell gives the same sentence as
  applying it once.
\<close>

theorem sentence_marking:
  "(c |\<in>| cells s \<longrightarrow>
      cells (sentence_mark_mine s c) = cells s |-| {|c|} \<and>
      count (sentence_mark_mine s c) = count s - 1) \<and>
   (c |\<notin>| cells s \<longrightarrow> sentence_mark_mine s c = s) \<and>
   cells (sentence_mark_safe s c) = cells s |-| {|c|} \<and>
   count (sentence_mark_safe s c) = count s \<and>
   (c |\<notin>| cells s \<longrightarrow> sentence_mark_safe s c = s) \<and>
   sentence_mark_mine (sentence_mark_mine s c) c = sentence_mark_mine s c \<and>
   sentence_mark_safe (sentence_mark_safe s c) c = sentence_mark_safe s c"
  by (simp add: sentence_mark_mine_def sentence_mark_safe_def)

theorem sentence_marking_witness:
  "sentence_mark_mine (Sentence {|(0, 1), (1, 1)|} 2) (0, 1) = Sentence {|(1, 1)|} 1 \<and>
   sentence_mark_mine (Sentence {|(1, 1)|} 1) (0, 1) = Sentence {|(1, 1)|} 1 \<and>
   sentence_mark_safe (Sentence {|(1, 1)|} 1) (0, 1) = Sentence {|(1, 1)|} 1"
  using sentence_marking [of "(0, 1)" "Sentence {|(0, 1), (1, 1)|} 2"]
    sentence_marking [of "(0, 1)" "Sentence {|(1, 1)|} 1"]
  by (simp add: Sentence_def)

lemma enumerates_sorted: "enumerates sorted_list_of_fset"
  by (simp add: enumerates_def)

section \<open>Move selection contracts\<close>

text \<open>
  Claim C9. For every agent state, \<^verbatim>\<open>make_safe_move\<close> returns a cell of
  \<^verbatim>\<open>safes - moves_made\<close> when that set is not empty and nothing when it is empty, and it
  leaves the agent, with its three sets and its knowledge base, as it was.
\<close>

theorem safe_move_contract:
  assumes "enumerates ord"
  shows "(safes a |-| moves_made a \<noteq> {||} \<longrightarrow>
            (\<exists>c. fst (make_safe_move ord a) = Some c \<and> c |\<in>| safes a \<and> c |\<notin>| moves_made a)) \<and>
         (safes a |-| moves_made a = {||} \<longrightarrow> fst (make_safe_move ord a) = None) \<and>
         snd (make_safe_move ord a) = a"
proof -
  have set_ord: "set (ord (safes a |-| moves_made a)) = fset (safes a |-| moves_made a)"
    using assms by (simp add: enumerates_def)
  show ?thesis
  proof (cases "ord (safes a |-| moves_made a)")
    case Nil
    with set_ord have "safes a |-| moves_made a = {||}"
      by (metis bot_fset.rep_eq fset_inject set_empty)
    then show ?thesis by (simp add: make_safe_move_def Nil)
  next
    case (Cons c cs)
    with set_ord have "c |\<in>| safes a |-| moves_made a"
      by (metis list.set_intros(1))
    then show ?thesis by (auto simp add: make_safe_move_def Cons)
  qed
qed

theorem safe_move_contract_witness:
  "enumerates sorted_list_of_fset \<and>
   fst (make_safe_move sorted_list_of_fset
          ((MinesweeperAI 1 2)\<lparr>moves_made := {|(0, 0)|}, safes := {|(0, 0)|}\<rparr>)) = None \<and>
   fst (make_safe_move sorted_list_of_fset
          ((MinesweeperAI 1 2)\<lparr>moves_made := {|(0, 0)|}, safes := {|(0, 0), (0, 1)|}\<rparr>)) = Some (0, 1)"
  using safe_move_contract [OF enumerates_sorted,
      of "(MinesweeperAI 1 2)\<lparr>moves_made := {|(0, 0)|}, safes := {|(0, 0)|}\<rparr>"]
    safe_move_contract [OF enumerates_sorted,
      of "(MinesweeperAI 1 2)\<lparr>moves_made := {|(0, 0)|}, safes := {|(0, 0), (0, 1)|}\<rparr>"]
    enumerates_sorted
  by (auto simp add: MinesweeperAI_def)

section \<open>Invariants of the closure procedures\<close>

text \<open>
  A property that satisfies \<open>closure_preserves\<close> and holds before \<^verbatim>\<open>additional_check\<close>,
  \<^verbatim>\<open>inference\<close> or the closure part of \<^verbatim>\<open>add_knowledge\<close> holds of the state returned.
  For \<^verbatim>\<open>additional_check\<close> this is fixpoint induction over the recursion, with one lemma
  for each of its loops.
\<close>

lemma check_cells_invariant:
  assumes "\<And>x y. I x \<Longrightarrow> recur x = Some y \<Longrightarrow> I y"
    and "\<And>x c. c \<in> set cs \<Longrightarrow> I x \<Longrightarrow> I (mark x c)"
    and "I a"
    and "check_cells recur mark cs a = Some a'"
  shows "I a'"
  using assms(2-)
proof (induction cs arbitrary: a)
  case Nil
  then show ?case by simp
next
  case (Cons c cs)
  from Cons.prems(3) obtain y where y: "recur (mark a c) = Some y"
    and rest: "check_cells recur mark cs y = Some a'"
    by (auto split: bind_splits)
  have "I (mark a c)" using Cons.prems(1,2) by simp
  with y have "I y" using assms(1) by blast
  with rest show ?case using Cons.IH Cons.prems(1) by simp
qed

lemma check_sentences_invariant:
  assumes recur: "\<And>x y. I x \<Longrightarrow> recur x = Some y \<Longrightarrow> I y"
    and remove: "\<And>x s. I x \<Longrightarrow> I (x\<lparr>knowledge := remove1 s (knowledge x)\<rparr>)"
    and mine: "\<And>x s c. s \<in> set ss \<Longrightarrow> known_mines s = Some (cells s) \<Longrightarrow>
                 c \<in> set (ord (cells s)) \<Longrightarrow> I x \<Longrightarrow> I (mark_mine x c)"
    and safe: "\<And>x s c. s \<in> set ss \<Longrightarrow> known_safes s = Some (cells s) \<Longrightarrow>
                 c \<in> set (ord (cells s)) \<Longrightarrow> I x \<Longrightarrow> I (mark_safe x c)"
    and "I a"
    and "check_sentences ord recur ss a = Some a'"
  shows "I a'"
  using mine safe assms(5-)
proof (induction ss arbitrary: a)
  case Nil
  then show ?case by simp
next
  case (Cons s ss)
  define a1 where
    "a1 = (if fcard (cells s) \<le> 0 then a\<lparr>knowledge := remove1 s (knowledge a)\<rparr> else a)"
  have a1: "I a1" using Cons.prems(3) remove by (simp add: a1_def)
  have step: "check_sentences ord recur (s # ss) a =
      Option.bind
        (case known_mines s of
           Some cs \<Rightarrow> check_cells recur mark_mine (ord cs) a1
         | None \<Rightarrow> (case known_safes s of
                      Some cs \<Rightarrow> check_cells recur mark_safe (ord cs) a1
                    | None \<Rightarrow> Some a1))
        (check_sentences ord recur ss)"
    by (simp only: check_sentences.simps Let_def a1_def)
  from Cons.prems(4) obtain a2 where
    a2: "(case known_mines s of
            Some cs \<Rightarrow> check_cells recur mark_mine (ord cs) a1
          | None \<Rightarrow> (case known_safes s of
                       Some cs \<Rightarrow> check_cells recur mark_safe (ord cs) a1
                     | None \<Rightarrow> Some a1)) = Some a2"
    and rest: "check_sentences ord recur ss a2 = Some a'"
    unfolding step by (rule bind_eq_Some_conv [THEN iffD1, elim_format]) blast
  have "I a2"
  proof (cases "known_mines s")
    case (Some cs)
    then have cs: "cs = cells s" by (auto simp add: known_mines_def split: if_splits)
    from a2 Some have "check_cells recur mark_mine (ord (cells s)) a1 = Some a2"
      by (simp add: cs)
    then show ?thesis
      using check_cells_invariant [of I recur "ord (cells s)" mark_mine a1 a2]
        recur Cons.prems(1) [of s] Some a1 cs by auto
  next
    case None
    note nomine = None
    show ?thesis
    proof (cases "known_safes s")
      case (Some cs)
      then have cs: "cs = cells s" by (auto simp add: known_safes_def split: if_splits)
      from a2 Some nomine have "check_cells recur mark_safe (ord (cells s)) a1 = Some a2"
        by (simp add: cs)
      then show ?thesis
        using check_cells_invariant [of I recur "ord (cells s)" mark_safe a1 a2]
          recur Cons.prems(2) [of s] Some a1 cs by auto
    next
      case None
      with a2 nomine a1 show ?thesis by simp
    qed
  qed
  show ?case
  proof (rule Cons.IH [of a2])
    show "\<And>x s' c. s' \<in> set ss \<Longrightarrow> known_mines s' = Some (cells s') \<Longrightarrow>
            c \<in> set (ord (cells s')) \<Longrightarrow> I x \<Longrightarrow> I (mark_mine x c)"
      using Cons.prems(1) by (meson list.set_intros(2))
    show "\<And>x s' c. s' \<in> set ss \<Longrightarrow> known_safes s' = Some (cells s') \<Longrightarrow>
            c \<in> set (ord (cells s')) \<Longrightarrow> I x \<Longrightarrow> I (mark_safe x c)"
      using Cons.prems(2) by (meson list.set_intros(2))
    show "I a2" by fact
    show "check_sentences ord recur ss a2 = Some a'" by (rule rest)
  qed
qed

lemma closure_preservesD:
  assumes "closure_preserves ord I G"
  shows "\<And>x s. I x \<Longrightarrow> s \<in> set (knowledge x) \<Longrightarrow> G s"
    and "\<And>x s. I x \<Longrightarrow> I (x\<lparr>knowledge := remove1 s (knowledge x)\<rparr>)"
    and "\<And>x s c. G s \<Longrightarrow> known_mines s = Some (cells s) \<Longrightarrow>
           c \<in> set (ord (cells s)) \<Longrightarrow> I x \<Longrightarrow> I (mark_mine x c)"
    and "\<And>x s c. G s \<Longrightarrow> known_safes s = Some (cells s) \<Longrightarrow>
           c \<in> set (ord (cells s)) \<Longrightarrow> I x \<Longrightarrow> I (mark_safe x c)"
    and "\<And>x s1 s2. I x \<Longrightarrow> s1 \<in> set (knowledge x) \<Longrightarrow> s2 \<in> set (knowledge x) \<Longrightarrow>
           cells s1 |\<subseteq>| cells s2 \<Longrightarrow>
           G (Sentence (cells s2 |-| cells s1) (count s2 - count s1))"
    and "\<And>x s1 s2 s3. I x \<Longrightarrow> s1 \<in> set (knowledge x) \<Longrightarrow> s2 \<in> set (knowledge x) \<Longrightarrow>
           cells s1 |\<subseteq>| cells s2 \<Longrightarrow>
           s3 = Sentence (cells s2 |-| cells s1) (count s2 - count s1) \<Longrightarrow>
           cells s3 \<noteq> {||} \<Longrightarrow> known_mines s3 = None \<Longrightarrow> known_safes s3 = None \<Longrightarrow>
           I (x\<lparr>knowledge := knowledge x @ [s3]\<rparr>)"
proof -
  note c = assms [unfolded closure_preserves_def]
  note c1 = c [THEN conjunct1, rule_format]
  note c2 = c [THEN conjunct2, THEN conjunct1, rule_format]
  note c3 = c [THEN conjunct2, THEN conjunct2, THEN conjunct1, rule_format]
  note c4 = c [THEN conjunct2, THEN conjunct2, THEN conjunct2, THEN conjunct1, rule_format]
  note c5 = c [THEN conjunct2, THEN conjunct2, THEN conjunct2, THEN conjunct2,
      THEN conjunct1, rule_format]
  note c6 = c [THEN conjunct2, THEN conjunct2, THEN conjunct2, THEN conjunct2,
      THEN conjunct2, rule_format]
  show "\<And>x s. I x \<Longrightarrow> s \<in> set (knowledge x) \<Longrightarrow> G s"
    by (rule c1)
  show "\<And>x s. I x \<Longrightarrow> I (x\<lparr>knowledge := remove1 s (knowledge x)\<rparr>)"
    by (rule c2)
  show "\<And>x s c. G s \<Longrightarrow> known_mines s = Some (cells s) \<Longrightarrow>
           c \<in> set (ord (cells s)) \<Longrightarrow> I x \<Longrightarrow> I (mark_mine x c)"
    by (rule c3)
  show "\<And>x s c. G s \<Longrightarrow> known_safes s = Some (cells s) \<Longrightarrow>
           c \<in> set (ord (cells s)) \<Longrightarrow> I x \<Longrightarrow> I (mark_safe x c)"
    by (rule c4)
  show "\<And>x s1 s2. I x \<Longrightarrow> s1 \<in> set (knowledge x) \<Longrightarrow> s2 \<in> set (knowledge x) \<Longrightarrow>
           cells s1 |\<subseteq>| cells s2 \<Longrightarrow>
           G (Sentence (cells s2 |-| cells s1) (count s2 - count s1))"
    by (rule c5)
  show "\<And>x s1 s2 s3. I x \<Longrightarrow> s1 \<in> set (knowledge x) \<Longrightarrow> s2 \<in> set (knowledge x) \<Longrightarrow>
           cells s1 |\<subseteq>| cells s2 \<Longrightarrow>
           s3 = Sentence (cells s2 |-| cells s1) (count s2 - count s1) \<Longrightarrow>
           cells s3 \<noteq> {||} \<Longrightarrow> known_mines s3 = None \<Longrightarrow> known_safes s3 = None \<Longrightarrow>
           I (x\<lparr>knowledge := knowledge x @ [s3]\<rparr>)"
    by (rule c6)
qed

lemma additional_check_invariant:
  assumes pres: "closure_preserves ord I G"
    and run: "additional_check ord a = Some a'"
    and "I a"
  shows "I a'"
proof -
  note stale = closure_preservesD(1) [OF pres]
  note remove = closure_preservesD(2) [OF pres]
  note mine = closure_preservesD(3) [OF pres]
  note safe = closure_preservesD(4) [OF pres]
  have "ord = ord \<longrightarrow> I a \<longrightarrow> I a'"
  proof (rule additional_check.raw_induct
           [where P = "\<lambda>ord' x y. ord' = ord \<longrightarrow> I x \<longrightarrow> I y", OF _ run])
    fix ac ord' x y
    assume IH: "\<And>ord' x y. ac ord' x = Some y \<Longrightarrow> ord' = ord \<longrightarrow> I x \<longrightarrow> I y"
      and body: "check_sentences ord' (ac ord') (knowledge x) x = Some y"
    show "ord' = ord \<longrightarrow> I x \<longrightarrow> I y"
    proof (intro impI)
      assume eq: "ord' = ord" and x: "I x"
      show "I y"
      proof (rule check_sentences_invariant
               [of I "ac ord" "knowledge x" ord x y])
        show "\<And>u v. I u \<Longrightarrow> ac ord u = Some v \<Longrightarrow> I v" using IH by blast
        show "\<And>u s. I u \<Longrightarrow> I (u\<lparr>knowledge := remove1 s (knowledge u)\<rparr>)" by (rule remove)
        show "\<And>u s c. s \<in> set (knowledge x) \<Longrightarrow> known_mines s = Some (cells s) \<Longrightarrow>
                c \<in> set (ord (cells s)) \<Longrightarrow> I u \<Longrightarrow> I (mark_mine u c)"
          using stale [OF x] mine by blast
        show "\<And>u s c. s \<in> set (knowledge x) \<Longrightarrow> known_safes s = Some (cells s) \<Longrightarrow>
                c \<in> set (ord (cells s)) \<Longrightarrow> I u \<Longrightarrow> I (mark_safe u c)"
          using stale [OF x] safe by blast
        show "I x" by (rule x)
        show "check_sentences ord (ac ord) (knowledge x) x = Some y"
          using body eq by simp
      qed
    qed
  qed
  with \<open>I a\<close> show ?thesis by simp
qed

text \<open>
  The same for \<^verbatim>\<open>inference\<close>: the property must also hold of the knowledge base
  extended by a derived sentence that is neither empty nor conclusive.
\<close>

lemma foldl_mark_invariant:
  assumes "\<And>x c. c \<in> set cs \<Longrightarrow> I x \<Longrightarrow> I (mark x c)"
    and "I a"
  shows "I (foldl mark a cs)"
  using assms by (induction cs arbitrary: a) auto

lemma infer_pair_unfold:
  "infer_pair ord i j (a, checkNeed) =
     (let s1 = knowledge a ! i; s2 = knowledge a ! j;
          s3 = Sentence (cells s2 |-| cells s1) (count s2 - count s1) in
      if cells s1 |\<subseteq>| cells s2 \<and> cells s3 \<noteq> {||} \<and> s3 \<notin> set (knowledge a) then
        (case known_mines s3 of
           Some cs \<Rightarrow> (foldl mark_mine a (ord (cells s3)), True)
         | None \<Rightarrow>
            (case known_safes s3 of
               Some cs \<Rightarrow> (foldl mark_safe a (ord (cells s3)), True)
             | None \<Rightarrow> (a\<lparr>knowledge := knowledge a @ [s3]\<rparr>, checkNeed)))
      else (a, checkNeed))"
proof -
  have mines: "\<And>s cs. known_mines s = Some cs \<Longrightarrow> cs = cells s"
    by (auto simp add: known_mines_def split: if_splits)
  have safes: "\<And>s cs. known_safes s = Some cs \<Longrightarrow> cs = cells s"
    by (auto simp add: known_safes_def split: if_splits)
  have pos: "\<And>S :: cell fset. 0 < fcard S \<longleftrightarrow> S \<noteq> {||}"
    by (metis fcard_0_eq neq0_conv)
  show ?thesis
    unfolding infer_pair_def Let_def split_conv pos
    by (cases "known_mines (Sentence (cells (knowledge a ! j) |-| cells (knowledge a ! i))
                 (count (knowledge a ! j) - count (knowledge a ! i)))";
        cases "known_safes (Sentence (cells (knowledge a ! j) |-| cells (knowledge a ! i))
                 (count (knowledge a ! j) - count (knowledge a ! i)))")
       (auto dest!: mines safes)
qed

lemma infer_pair_invariant:
  assumes pres: "closure_preserves ord I G"
    and a: "I a"
    and i: "i < length (knowledge a)"
    and j: "j < length (knowledge a)"
  shows "I (fst (infer_pair ord i j (a, checkNeed)))"
proof -
  note mine = closure_preservesD(3) [OF pres]
  note safe = closure_preservesD(4) [OF pres]
  note derived = closure_preservesD(5) [OF pres]
  note append = closure_preservesD(6) [OF pres]
  define s1 where "s1 = knowledge a ! i"
  define s2 where "s2 = knowledge a ! j"
  define s3 where "s3 = Sentence (cells s2 |-| cells s1) (count s2 - count s1)"
  have s1: "s1 \<in> set (knowledge a)" and s2: "s2 \<in> set (knowledge a)"
    using i j by (simp_all add: s1_def s2_def)
  have unfold: "infer_pair ord i j (a, checkNeed) =
      (if cells s1 |\<subseteq>| cells s2 \<and> cells s3 \<noteq> {||} \<and> s3 \<notin> set (knowledge a) then
         (case known_mines s3 of
            Some cs \<Rightarrow> (foldl mark_mine a (ord (cells s3)), True)
          | None \<Rightarrow>
             (case known_safes s3 of
                Some cs \<Rightarrow> (foldl mark_safe a (ord (cells s3)), True)
              | None \<Rightarrow> (a\<lparr>knowledge := knowledge a @ [s3]\<rparr>, checkNeed)))
       else (a, checkNeed))"
    by (simp only: infer_pair_unfold Let_def s1_def s2_def s3_def)
  show ?thesis
  proof (cases "cells s1 |\<subseteq>| cells s2 \<and> cells s3 \<noteq> {||} \<and> s3 \<notin> set (knowledge a)")
    case False
    then have "infer_pair ord i j (a, checkNeed) = (a, checkNeed)"
      by (simp only: unfold if_False)
    then show ?thesis using a by simp
  next
    case True
    then have sub: "cells s1 |\<subseteq>| cells s2" and ne: "cells s3 \<noteq> {||}"
      by auto
    have G: "G s3" unfolding s3_def by (rule derived [OF a s1 s2 sub])
    show ?thesis
    proof (cases "known_mines s3")
      case (Some cs)
      then have cs: "cs = cells s3" by (auto simp add: known_mines_def split: if_splits)
      have "I (foldl mark_mine a (ord (cells s3)))"
      proof (rule foldl_mark_invariant [where I = I])
        fix x c
        assume "c \<in> set (ord (cells s3))" and "I x"
        then show "I (mark_mine x c)" using mine [OF G, of c x] Some cs by simp
      qed (rule a)
      then show ?thesis by (simp add: unfold True Some)
    next
      case None
      note nomine = None
      show ?thesis
      proof (cases "known_safes s3")
        case (Some cs)
        then have cs: "cs = cells s3" by (auto simp add: known_safes_def split: if_splits)
        have "I (foldl mark_safe a (ord (cells s3)))"
        proof (rule foldl_mark_invariant [where I = I])
          fix x c
          assume "c \<in> set (ord (cells s3))" and "I x"
          then show "I (mark_safe x c)" using safe [OF G, of c x] Some cs by simp
        qed (rule a)
        then show ?thesis by (simp add: unfold True Some nomine)
      next
        case None
        have "I (a\<lparr>knowledge := knowledge a @ [s3]\<rparr>)"
          by (rule append [OF a s1 s2 sub s3_def ne nomine None])
        then show ?thesis by (simp add: unfold True None nomine)
      qed
    qed
  qed
qed

lemma infer_step_invariant:
  assumes pres: "closure_preserves ord I G"
    and inv: "I (fst (snd (snd st)))" and cond: "infer_cond st"
  shows "I (fst (snd (snd (infer_step ord st))))"
proof -
  obtain i j x checkNeed where st: "st = (i, j, x, checkNeed)"
    by (cases st) auto
  show ?thesis
  proof (cases "j < length (knowledge x)")
    case True
    obtain y c where pair: "infer_pair ord i j (x, checkNeed) = (y, c)"
      by (cases "infer_pair ord i j (x, checkNeed)") auto
    have "I (fst (infer_pair ord i j (x, checkNeed)))"
      by (rule infer_pair_invariant [OF pres _ _ True])
         (use inv cond in \<open>simp_all add: st infer_cond_def\<close>)
    then show ?thesis by (simp add: st infer_step_def True pair)
  next
    case False
    then show ?thesis using inv by (simp add: st infer_step_def)
  qed
qed

lemma infer_loop_invariant:
  assumes pres: "closure_preserves ord I G"
    and run: "while_option infer_cond (infer_step ord) (i0, j0, a, c0) = Some (i, j, a', checkNeed)"
    and a: "I a"
  shows "I a'"
proof -
  have "(\<lambda>st. I (fst (snd (snd st)))) (i, j, a', checkNeed)"
  proof (rule while_option_rule [OF _ run])
    fix st :: infer_state
    assume "I (fst (snd (snd st)))" and "infer_cond st"
    then show "I (fst (snd (snd (infer_step ord st))))"
      by (rule infer_step_invariant [OF pres])
  next
    show "I (fst (snd (snd (i0, j0, a, c0))))" using a by simp
  qed
  then show ?thesis by simp
qed

lemma inference_invariant:
  assumes pres: "closure_preserves ord I G"
    and run: "inference ord a = Some a'"
    and a: "I a"
  shows "I a'"
proof -
  from run obtain i j x checkNeed where
    loop: "while_option infer_cond (infer_step ord) (0, 0, a, False) = Some (i, j, x, checkNeed)"
    and fin: "(if checkNeed then additional_check ord x else Some x) = Some a'"
    by (auto simp add: inference_def split: option.splits)
  have x: "I x"
    by (rule infer_loop_invariant [OF pres loop a])
  show ?thesis
  proof (cases checkNeed)
    case True
    with fin have "additional_check ord x = Some a'" by simp
    then show ?thesis
      using additional_check_invariant [OF pres _ x] by blast
  next
    case False
    with fin x show ?thesis by simp
  qed
qed

lemma add_knowledge_invariant:
  assumes pres: "closure_preserves ord I G"
    and run: "add_knowledge ord a cell cnt = Some a'"
    and recorded: "I (record_observation a cell cnt)"
  shows "I a'"
proof -
  from run obtain x where
    check: "additional_check ord (record_observation a cell cnt) = Some x"
    and infer: "inference ord x = Some a'"
    by (auto simp add: add_knowledge_def split: bind_splits)
  have "I x"
    by (rule additional_check_invariant [OF pres check recorded])
  then show ?thesis
    by (rule inference_invariant [OF pres infer])
qed

section \<open>Growth of the agent's sets\<close>


lemma record_observation_sets:
  "moves_made (record_observation a c k) = finsert c (moves_made a) \<and>
   mines (record_observation a c k) = mines a \<and>
   safes (record_observation a c k) = finsert c (safes a)"
  by (simp add: record_observation_def mark_safe_def Let_def split: option.splits)




section \<open>Termination of fact extraction\<close>

text \<open>
  No marking and no removal of an empty sentence raises the number of memberships, and
  marking a cell that some live sentence holds lowers it.
\<close>

lemma fcard_sentence_mark_mine: "fcard (cells (sentence_mark_mine s c)) \<le> fcard (cells s)"
  by (simp add: sentence_mark_mine_def fcard_fminus1_le)

lemma fcard_sentence_mark_safe: "fcard (cells (sentence_mark_safe s c)) \<le> fcard (cells s)"
  by (simp add: sentence_mark_safe_def fcard_fminus1_le)

lemma fcard_sentence_mark_mine_less:
  assumes "c |\<in>| cells s"
  shows "fcard (cells (sentence_mark_mine s c)) < fcard (cells s)"
proof -
  have "cells (sentence_mark_mine s c) = cells s |-| {|c|}"
    using assms by (simp add: sentence_mark_mine_def)
  then show ?thesis using fcard_fminus1_less [OF assms] by (simp only:)
qed

lemma fcard_sentence_mark_safe_less:
  assumes "c |\<in>| cells s"
  shows "fcard (cells (sentence_mark_safe s c)) < fcard (cells s)"
proof -
  have "cells (sentence_mark_safe s c) = cells s |-| {|c|}"
    by (simp add: sentence_mark_safe_def)
  then show ?thesis using fcard_fminus1_less [OF assms] by (simp only:)
qed

lemma sum_list_map_le:
  fixes f g :: "'a \<Rightarrow> nat"
  assumes "\<And>x. x \<in> set xs \<Longrightarrow> f x \<le> g x"
  shows "sum_list (map f xs) \<le> sum_list (map g xs)"
  using assms by (induction xs) (auto intro: add_mono)

lemma sum_list_map_less:
  fixes f g :: "'a \<Rightarrow> nat"
  assumes "\<And>x. x \<in> set xs \<Longrightarrow> f x \<le> g x"
    and "y \<in> set xs" and "f y < g y"
  shows "sum_list (map f xs) < sum_list (map g xs)"
  using assms
proof (induction xs)
  case Nil
  then show ?case by simp
next
  case (Cons x xs)
  have le: "sum_list (map f xs) \<le> sum_list (map g xs)"
    by (rule sum_list_map_le) (simp add: Cons.prems(1))
  show ?case
  proof (cases "y = x")
    case True
    with Cons.prems(3) le show ?thesis by simp
  next
    case False
    with Cons.prems have "y \<in> set xs" by simp
    then have "sum_list (map f xs) < sum_list (map g xs)"
      using Cons.IH Cons.prems(1,3) by simp
    moreover have "f x \<le> g x" using Cons.prems(1) by simp
    ultimately show ?thesis by simp
  qed
qed

lemma memberships_mark_mine: "memberships (mark_mine a c) \<le> memberships a"
  unfolding memberships_def mark_mine_def
  by (simp add: o_def) (rule sum_list_map_le, rule fcard_sentence_mark_mine)

lemma memberships_mark_safe: "memberships (mark_safe a c) \<le> memberships a"
  unfolding memberships_def mark_safe_def
  by (simp add: o_def) (rule sum_list_map_le, rule fcard_sentence_mark_safe)

lemma memberships_mark_mine_less:
  assumes "s \<in> set (knowledge a)" and "c |\<in>| cells s"
  shows "memberships (mark_mine a c) < memberships a"
  unfolding memberships_def mark_mine_def
  by (simp add: o_def)
     (rule sum_list_map_less [OF fcard_sentence_mark_mine assms(1)],
      rule fcard_sentence_mark_mine_less [OF assms(2)])

lemma memberships_mark_safe_less:
  assumes "s \<in> set (knowledge a)" and "c |\<in>| cells s"
  shows "memberships (mark_safe a c) < memberships a"
  unfolding memberships_def mark_safe_def
  by (simp add: o_def)
     (rule sum_list_map_less [OF fcard_sentence_mark_safe assms(1)],
      rule fcard_sentence_mark_safe_less [OF assms(2)])

lemma memberships_remove_empty:
  assumes "cells s = {||}"
  shows "memberships (a\<lparr>knowledge := remove1 s (knowledge a)\<rparr>) = memberships a"
proof (cases "s \<in> set (knowledge a)")
  case True
  from sum_list_map_remove1 [OF True, of "\<lambda>s. fcard (cells s)"]
  show ?thesis by (simp add: memberships_def assms fcard_fempty)
next
  case False
  then show ?thesis by (simp add: memberships_def remove1_idem)
qed

text \<open>
  The loops of \<^verbatim>\<open>additional_check\<close> return whenever the recursive call returns on every
  state with fewer than \<open>n\<close> memberships. Until the first marking the sentences of the
  copy that are not empty are still in the live list, so the first marking lowers the
  number of memberships; from then on it stays below \<open>n\<close>.
\<close>

lemma check_cells_returns:
  assumes recur: "\<And>x. memberships x < n \<Longrightarrow>
                    \<exists>y. recur x = Some y \<and> memberships y \<le> memberships x"
    and mark: "\<And>x c. memberships (mark x c) \<le> memberships x"
    and "memberships a < n"
  shows "\<exists>a'. check_cells recur mark cs a = Some a' \<and> memberships a' \<le> memberships a"
  using assms(3)
proof (induction cs arbitrary: a)
  case Nil
  then show ?case by simp
next
  case (Cons c cs)
  have "memberships (mark a c) < n"
    using mark [of a c] Cons.prems by simp
  from recur [OF this] obtain y where
    y: "recur (mark a c) = Some y" and le: "memberships y \<le> memberships (mark a c)"
    by blast
  have "memberships y < n" using le mark [of a c] Cons.prems by simp
  from Cons.IH [OF this] obtain a' where
    "check_cells recur mark cs y = Some a'" and "memberships a' \<le> memberships y"
    by blast
  with y le mark [of a c] show ?case by auto
qed

lemma check_cells_returns_first:
  assumes recur: "\<And>x. memberships x < n \<Longrightarrow>
                    \<exists>y. recur x = Some y \<and> memberships y \<le> memberships x"
    and mark: "\<And>x c. memberships (mark x c) \<le> memberships x"
    and "memberships a \<le> n"
    and "memberships (mark a c) < memberships a"
  shows "\<exists>a'. check_cells recur mark (c # cs) a = Some a' \<and> memberships a' < memberships a"
proof -
  have "memberships (mark a c) < n" using assms(3,4) by simp
  from recur [OF this] obtain y where
    y: "recur (mark a c) = Some y" and le: "memberships y \<le> memberships (mark a c)"
    by blast
  have "memberships y < n" using le assms(3,4) by simp
  from check_cells_returns [of n recur mark y cs, OF recur mark this] obtain a' where
    "check_cells recur mark cs y = Some a'" and "memberships a' \<le> memberships y"
    by blast
  with y le assms(4) show ?thesis by auto
qed

lemma check_cells_conclusion:
  assumes ord: "enumerates ord"
    and recur: "\<And>x. memberships x < n \<Longrightarrow>
                    \<exists>y. recur x = Some y \<and> memberships y \<le> memberships x"
    and mark: "\<And>x c. memberships (mark x c) \<le> memberships x"
    and mark_less: "\<And>x s c. s \<in> set (knowledge x) \<Longrightarrow> c |\<in>| cells s \<Longrightarrow>
                      memberships (mark x c) < memberships x"
    and ne: "cells s \<noteq> {||}"
    and le: "memberships a \<le> n"
    and live: "s \<in> set (knowledge a) \<or> memberships a < n"
  shows "\<exists>a2. check_cells recur mark (ord (cells s)) a = Some a2 \<and>
              memberships a2 \<le> memberships a \<and> memberships a2 < n"
proof -
  have set_ord: "set (ord (cells s)) = fset (cells s)"
    using ord by (simp add: enumerates_def)
  with ne have "ord (cells s) \<noteq> []"
    by (metis bot_fset.rep_eq fset_inject set_empty)
  then obtain c rest where cons: "ord (cells s) = c # rest"
    by (cases "ord (cells s)") auto
  with set_ord have c: "c |\<in>| cells s"
    by (metis list.set_intros(1))
  from live show ?thesis
  proof
    assume "s \<in> set (knowledge a)"
    then have "memberships (mark a c) < memberships a" using c by (rule mark_less)
    from check_cells_returns_first [of n recur mark a c rest, OF recur mark le this]
    obtain a2 where "check_cells recur mark (c # rest) a = Some a2"
      and "memberships a2 < memberships a" by blast
    with le cons show ?thesis by auto
  next
    assume less: "memberships a < n"
    from check_cells_returns [of n recur mark a "c # rest", OF recur mark this]
    obtain a2 where "check_cells recur mark (c # rest) a = Some a2"
      and "memberships a2 \<le> memberships a" by blast
    with less cons show ?thesis by auto
  qed
qed

lemma check_sentences_returns:
  assumes ord: "enumerates ord"
    and recur: "\<And>x. memberships x < n \<Longrightarrow>
                    \<exists>y. recur x = Some y \<and> memberships y \<le> memberships x"
    and "memberships a \<le> n"
    and "(\<forall>s \<in> set ss. cells s \<noteq> {||} \<longrightarrow> s \<in> set (knowledge a)) \<or> memberships a < n"
  shows "\<exists>a'. check_sentences ord recur ss a = Some a' \<and> memberships a' \<le> memberships a"
  using assms(3,4)
proof (induction ss arbitrary: a)
  case Nil
  then show ?case by simp
next
  case (Cons s ss)
  define a1 where
    "a1 = (if fcard (cells s) \<le> 0 then a\<lparr>knowledge := remove1 s (knowledge a)\<rparr> else a)"
  define result where
    "result = (case known_mines s of
                 Some cs \<Rightarrow> check_cells recur mark_mine (ord cs) a1
               | None \<Rightarrow> (case known_safes s of
                            Some cs \<Rightarrow> check_cells recur mark_safe (ord cs) a1
                          | None \<Rightarrow> Some a1))"
  have step: "check_sentences ord recur (s # ss) a =
      Option.bind result (check_sentences ord recur ss)"
    by (simp only: check_sentences.simps Let_def a1_def result_def)
  have a1_eq: "memberships a1 = memberships a"
    by (simp add: a1_def memberships_remove_empty)
  have a1_same: "cells s \<noteq> {||} \<Longrightarrow> a1 = a"
    by (simp add: a1_def)
  have a1_live: "(\<forall>s' \<in> set ss. cells s' \<noteq> {||} \<longrightarrow> s' \<in> set (knowledge a1)) \<or>
                 memberships a1 < n"
    using Cons.prems(2)
  proof
    assume live: "\<forall>s' \<in> set (s # ss). cells s' \<noteq> {||} \<longrightarrow> s' \<in> set (knowledge a)"
    have "\<forall>s' \<in> set ss. cells s' \<noteq> {||} \<longrightarrow> s' \<in> set (knowledge a1)"
    proof (intro ballI impI)
      fix s'
      assume s': "s' \<in> set ss" and ne: "cells s' \<noteq> {||}"
      with live have "s' \<in> set (knowledge a)" by simp
      moreover have "s' \<noteq> s" if "cells s = {||}"
        using ne that by auto
      ultimately show "s' \<in> set (knowledge a1)"
        by (cases "cells s = {||}") (simp_all add: a1_def)
    qed
    then show ?thesis ..
  next
    assume "memberships a < n"
    then show ?thesis by (simp add: a1_eq)
  qed
  have s_live: "cells s \<noteq> {||} \<Longrightarrow> s \<in> set (knowledge a) \<or> memberships a < n"
    using Cons.prems(2) by auto
  have "\<exists>a2. result = Some a2 \<and> memberships a2 \<le> memberships a \<and>
          ((\<forall>s' \<in> set ss. cells s' \<noteq> {||} \<longrightarrow> s' \<in> set (knowledge a2)) \<or>
           memberships a2 < n)"
  proof (cases "known_mines s")
    case (Some cs)
    then have cs: "cs = cells s" and ne: "cells s \<noteq> {||}"
      by (auto simp add: known_mines_def fcard_fempty split: if_splits)
    have "\<exists>a2. check_cells recur mark_mine (ord (cells s)) a = Some a2 \<and>
            memberships a2 \<le> memberships a \<and> memberships a2 < n"
    proof (rule check_cells_conclusion [OF ord])
      show "\<And>x. memberships x < n \<Longrightarrow>
              \<exists>y. recur x = Some y \<and> memberships y \<le> memberships x"
        by (rule recur)
      show "\<And>x c. memberships (mark_mine x c) \<le> memberships x"
        by (rule memberships_mark_mine)
      show "\<And>x s c. s \<in> set (knowledge x) \<Longrightarrow> c |\<in>| cells s \<Longrightarrow>
              memberships (mark_mine x c) < memberships x"
        by (rule memberships_mark_mine_less)
      show "cells s \<noteq> {||}" by (rule ne)
      show "memberships a \<le> n" by (rule Cons.prems(1))
      show "s \<in> set (knowledge a) \<or> memberships a < n" by (rule s_live [OF ne])
    qed
    then show ?thesis by (auto simp add: result_def Some cs a1_same [OF ne])
  next
    case None
    note nomine = None
    show ?thesis
    proof (cases "known_safes s")
      case (Some cs)
      then have cs: "cs = cells s" and ne: "cells s \<noteq> {||}"
        by (auto simp add: known_safes_def fcard_fempty split: if_splits)
      have "\<exists>a2. check_cells recur mark_safe (ord (cells s)) a = Some a2 \<and>
              memberships a2 \<le> memberships a \<and> memberships a2 < n"
      proof (rule check_cells_conclusion [OF ord])
        show "\<And>x. memberships x < n \<Longrightarrow>
                \<exists>y. recur x = Some y \<and> memberships y \<le> memberships x"
          by (rule recur)
        show "\<And>x c. memberships (mark_safe x c) \<le> memberships x"
          by (rule memberships_mark_safe)
        show "\<And>x s c. s \<in> set (knowledge x) \<Longrightarrow> c |\<in>| cells s \<Longrightarrow>
                memberships (mark_safe x c) < memberships x"
          by (rule memberships_mark_safe_less)
        show "cells s \<noteq> {||}" by (rule ne)
        show "memberships a \<le> n" by (rule Cons.prems(1))
        show "s \<in> set (knowledge a) \<or> memberships a < n" by (rule s_live [OF ne])
      qed
      then show ?thesis by (auto simp add: result_def nomine Some cs a1_same [OF ne])
    next
      case None
      with nomine a1_live a1_eq show ?thesis by (simp add: result_def)
    qed
  qed
  then obtain a2 where a2: "result = Some a2" and le: "memberships a2 \<le> memberships a"
    and live: "(\<forall>s' \<in> set ss. cells s' \<noteq> {||} \<longrightarrow> s' \<in> set (knowledge a2)) \<or>
               memberships a2 < n"
    by blast
  have "memberships a2 \<le> n" using le Cons.prems(1) by simp
  from Cons.IH [OF this live] obtain a' where
    "check_sentences ord recur ss a2 = Some a'" and "memberships a' \<le> memberships a2"
    by blast
  with a2 le show ?case unfolding step by simp
qed

lemma additional_check_returns:
  assumes "enumerates ord"
  shows "\<exists>a'. additional_check ord a = Some a' \<and> memberships a' \<le> memberships a"
proof (induction "memberships a" arbitrary: a rule: less_induct)
  case less
  have "\<exists>a'. check_sentences ord (additional_check ord) (knowledge a) a = Some a' \<and>
          memberships a' \<le> memberships a"
  proof (rule check_sentences_returns [OF assms, of "memberships a"])
    show "\<exists>y. additional_check ord x = Some y \<and> memberships y \<le> memberships x"
      if "memberships x < memberships a" for x
      using less [OF that] .
  qed simp_all
  then show ?case by (subst additional_check.simps)
qed




section \<open>The cells of the grid\<close>

lemma in_grid_cells: "c |\<in>| grid_cells h w \<longleftrightarrow> in_grid h w c"
  by (cases c) (auto simp add: grid_cells_def in_grid_def fset_of_list.rep_eq)

lemma fcard_grid_cells:
  assumes "0 \<le> h" and "0 \<le> w"
  shows "int (fcard (grid_cells h w)) = h * w"
proof -
  have "distinct (List.product [0..h - 1] [0..w - 1])"
    by (simp add: distinct_product)
  then have "fcard (grid_cells h w) = length (List.product [0..h - 1] [0..w - 1])"
    by (simp add: grid_cells_def fcard.rep_eq fset_of_list.rep_eq distinct_card)
  also have "\<dots> = nat h * nat w"
    using assms by simp
  finally show ?thesis using assms by (simp add: nat_mult_distrib)
qed

section \<open>The sentence of an observation\<close>

text \<open>
  The loops of \<^verbatim>\<open>sentenceOfSurroundings\<close> and of \<^verbatim>\<open>nearby_mines\<close> in closed form: the
  clipped ranges enumerate the block of the cell without repetition.
\<close>

lemma fcard_pos: "0 < fcard S \<longleftrightarrow> S \<noteq> {||}"
  by (metis fcard_0_eq neq0_conv)

lemma length_filter_fcard:
  assumes "distinct xs"
  shows "length (filter (\<lambda>x. x |\<in>| M) xs) = fcard (fset_of_list xs |\<inter>| M)"
proof -
  have "length (filter (\<lambda>x. x |\<in>| M) xs) = card ({x. x |\<in>| M} \<inter> set xs)"
    by (rule distinct_length_filter [OF assms])
  also have "{x. x |\<in>| M} \<inter> set xs = fset (fset_of_list xs |\<inter>| M)"
    by (auto simp add: fset_of_list.rep_eq)
  finally show ?thesis by (simp add: fcard.rep_eq)
qed

lemma surroundings_fold:
  "foldl (\<lambda>(count2, cs) ij.
            if ij |\<in>| M then (count2 - 1, cs)
            else if ij |\<notin>| S then (count2, finsert ij cs)
            else (count2, cs))
         (k, A) xs =
   (k - int (length (filter (\<lambda>ij. ij |\<in>| M) xs)),
    A |\<union>| fset_of_list (filter (\<lambda>ij. ij |\<notin>| M \<and> ij |\<notin>| S) xs))"
  by (induction xs arbitrary: k A) simp_all

lemma clipped_block:
  "fset_of_list
     (List.product
        [(if fst cell - 1 < 0 then 0 else fst cell - 1)..
           (if fst cell + 2 > h then h else fst cell + 2) - 1]
        [(if snd cell - 1 < 0 then 0 else snd cell - 1)..
           (if snd cell + 2 > w then w else snd cell + 2) - 1]) =
   block h w cell"
  by (rule fset_eqI) (auto simp add: block_def in_grid_def fset_of_list.rep_eq)

lemma sentenceOfSurroundings_eq:
  "sentenceOfSurroundings a cell k =
     (if block (height a) (width a) cell |-| mines a |-| safes a \<noteq> {||}
      then Some (Sentence (block (height a) (width a) cell |-| mines a |-| safes a)
                   (k - int (fcard (block (height a) (width a) cell |\<inter>| mines a))))
      else None)"
proof -
  define xs where "xs = List.product
        [(if fst cell - 1 < 0 then 0 else fst cell - 1)..
           (if fst cell + 2 > height a then height a else fst cell + 2) - 1]
        [(if snd cell - 1 < 0 then 0 else snd cell - 1)..
           (if snd cell + 2 > width a then width a else snd cell + 2) - 1]"
  have dist: "distinct xs" by (simp add: xs_def distinct_product)
  have blk: "fset_of_list xs = block (height a) (width a) cell"
    unfolding xs_def by (rule clipped_block)
  have cs: "fset_of_list (filter (\<lambda>ij. ij |\<notin>| mines a \<and> ij |\<notin>| safes a) xs) =
      block (height a) (width a) cell |-| mines a |-| safes a"
    unfolding blk [symmetric] by (rule fset_eqI) (auto simp add: fset_of_list.rep_eq)
  have fold: "foldl (\<lambda>(count2, cs) ij.
                if ij |\<in>| mines a then (count2 - 1, cs)
                else if ij |\<notin>| safes a then (count2, finsert ij cs)
                else (count2, cs)) (k, {||}) xs =
      (k - int (fcard (block (height a) (width a) cell |\<inter>| mines a)),
       block (height a) (width a) cell |-| mines a |-| safes a)"
    by (simp only: surroundings_fold length_filter_fcard [OF dist] blk cs
          sup_bot_left)
  have "sentenceOfSurroundings a cell k =
      (case foldl (\<lambda>(count2, cs) ij.
                if ij |\<in>| mines a then (count2 - 1, cs)
                else if ij |\<notin>| safes a then (count2, finsert ij cs)
                else (count2, cs)) (k, {||}) xs of
         (count2, cs) \<Rightarrow> if fcard cs > 0 then Some (Sentence cs count2) else None)"
    by (simp only: sentenceOfSurroundings_def Let_def xs_def)
  also have "\<dots> =
      (if fcard (block (height a) (width a) cell |-| mines a |-| safes a) > 0
       then Some (Sentence (block (height a) (width a) cell |-| mines a |-| safes a)
                    (k - int (fcard (block (height a) (width a) cell |\<inter>| mines a))))
       else None)"
    by (simp only: fold split_conv)
  finally show ?thesis by (simp only: fcard_pos)
qed

lemma nearby_mines_eq:
  "nearby_mines g cell =
     int (fcard (neighbours (board_height g) (board_width g) cell |\<inter>| board g))"
proof -
  define xs where "xs = List.product [fst cell - 1..fst cell + 1] [snd cell - 1..snd cell + 1]"
  define P where "P = (\<lambda>ij. ij \<noteq> cell \<and> in_grid (board_height g) (board_width g) ij \<and>
                          ij |\<in>| board g)"
  have dist: "distinct (filter P xs)" by (simp add: xs_def distinct_product)
  have fold: "foldl (\<lambda>cnt ij.
              if ij = cell then cnt
              else if 0 \<le> fst ij \<and> fst ij < board_height g \<and>
                      0 \<le> snd ij \<and> snd ij < board_width g
                   then (if ij |\<in>| board g then cnt + 1 else cnt)
                   else cnt) n ys = n + int (length (filter P ys))" for n ys
    by (induction ys arbitrary: n) (auto simp add: P_def in_grid_def)
  have "set (filter P xs) =
      fset (neighbours (board_height g) (board_width g) cell |\<inter>| board g)"
    by (auto simp add: P_def neighbours_def block_def xs_def fset_of_list.rep_eq)
  then have "length (filter P xs) =
      fcard (neighbours (board_height g) (board_width g) cell |\<inter>| board g)"
    using distinct_card [OF dist] by (simp add: fcard.rep_eq)
  then show ?thesis
    by (simp add: nearby_mines_def fold xs_def)
qed

section \<open>Claim C4: what an observation adds\<close>

lemma record_observation_knowledge:
  "knowledge (record_observation a cell k) =
     map (\<lambda>s. sentence_mark_safe s cell) (knowledge a) @
     (if block (height a) (width a) cell |-| mines a |-| finsert cell (safes a) = {||} then []
      else [Sentence (block (height a) (width a) cell |-| mines a |-| finsert cell (safes a))
              (k - int (fcard (block (height a) (width a) cell |\<inter>| mines a)))])"
  by (simp add: record_observation_def Let_def sentenceOfSurroundings_eq mark_safe_def)

text \<open>
  Claim C4, as stated, fails when the probed cell is itself in \<^verbatim>\<open>mines\<close>: the loop of
  \<^verbatim>\<open>sentenceOfSurroundings\<close> tests membership in \<^verbatim>\<open>mines\<close> first, so the count is lowered
  for the probed cell too. On a 1 by 3 grid with \<open>(0, 1)\<close> in \<^verbatim>\<open>mines\<close> and \<open>(0, 0)\<close> in
  \<^verbatim>\<open>safes\<close>, the observation of \<open>(0, 1)\<close> with count 0 appends the sentence over
  \<open>(0, 2)\<close> with count \<open>-1\<close>, where no neighbour of \<open>(0, 1)\<close> is in \<^verbatim>\<open>mines\<close> and the claim
  gives the count 0.
\<close>

theorem observation_sentence_counterexample:
  "knowledge (record_observation
      \<lparr>height = 1, width = 3, moves_made = {|(0, 0)|}, mines = {|(0, 1)|},
         safes = {|(0, 0)|}, knowledge = []\<rparr> (0, 1) 0) =
     [Sentence {|(0, 2)|} (- 1)] \<and>
   knowledge (record_observation
      \<lparr>height = 1, width = 3, moves_made = {|(0, 0)|}, mines = {|(0, 1)|},
         safes = {|(0, 0)|}, knowledge = []\<rparr> (0, 1) 0) \<noteq>
     [Sentence (neighbours 1 3 (0, 1) |-| {|(0, 0)|} |-| {|(0, 1)|})
        (0 - int (fcard (neighbours 1 3 (0, 1) |\<inter>| {|(0, 1)|})))] \<and>
   neighbours 1 3 (0, 1) |-| {|(0, 0)|} |-| {|(0, 1)|} = {|(0, 2)|} \<and>
   0 - int (fcard (neighbours 1 3 (0, 1) |\<inter>| {|(0, 1)|})) = 0"
  by code_simp

text \<open>
  Claim C4, amended. For every \<^verbatim>\<open>add_knowledge(cell, count)\<close> call whose cell is not in
  \<^verbatim>\<open>mines\<close>, as is the case for every valid observation, let \<open>N\<close> be the set of in-bounds
  neighbours of the cell that are in neither \<^verbatim>\<open>safes\<close> nor \<^verbatim>\<open>mines\<close> and \<open>m\<close> the number
  of in-bounds neighbours in \<^verbatim>\<open>mines\<close>. After steps 1 to 3 the knowledge base is the
  earlier one with the cell removed from every sentence, followed by the one sentence
  \<open>Sentence N (count - m)\<close> if \<open>N\<close> is not empty, and by nothing if \<open>N\<close> is empty.
\<close>

theorem observation_sentence:
  assumes "cell |\<notin>| mines a"
  shows "knowledge (record_observation a cell k) =
     map (\<lambda>s. sentence_mark_safe s cell) (knowledge a) @
     (if neighbours (height a) (width a) cell |-| safes a |-| mines a = {||} then []
      else [Sentence (neighbours (height a) (width a) cell |-| safes a |-| mines a)
              (k - int (fcard (neighbours (height a) (width a) cell |\<inter>| mines a)))])"
proof -
  have N: "block (height a) (width a) cell |-| mines a |-| finsert cell (safes a) =
      neighbours (height a) (width a) cell |-| safes a |-| mines a"
    by (rule fset_eqI) (auto simp add: neighbours_def)
  have m: "block (height a) (width a) cell |\<inter>| mines a =
      neighbours (height a) (width a) cell |\<inter>| mines a"
    using assms by (auto simp add: neighbours_def)
  show ?thesis
    by (simp only: record_observation_knowledge N m)
qed

theorem observation_sentence_witness:
  "(0, 0) |\<notin>| mines (MinesweeperAI 1 3) \<and>
   knowledge (record_observation (MinesweeperAI 1 3) (0, 0) 1) = [Sentence {|(0, 1)|} 1] \<and>
   knowledge (record_observation
      \<lparr>height = 1, width = 3, moves_made = {|(0, 0)|}, mines = {|(0, 1)|},
         safes = {|(0, 0)|}, knowledge = []\<rparr> (0, 2) 1) = []"
proof -
  have 1: "(0, 0) |\<notin>| mines (MinesweeperAI 1 3)"
    by (simp add: MinesweeperAI_def)
  have 2: "(0, 2) |\<notin>| mines \<lparr>height = 1, width = 3, moves_made = {|(0, 0)|}, mines = {|(0, 1)|},
         safes = {|(0, 0)|}, knowledge = []\<rparr>"
    by simp
  have n1: "neighbours 1 3 (0, 0) = {|(0, 1)|}" by code_simp
  have n2: "neighbours 1 3 (0, 2) = {|(0, 1)|}" by code_simp
  show ?thesis
    using observation_sentence [OF 1, of 1] observation_sentence [OF 2, of 1] 1
    by (simp add: MinesweeperAI_def n1 n2 fcard_fempty)
qed

section \<open>Soundness with respect to the board\<close>

text \<open>
  What a truthful sentence concludes is true of the board; marking a mine as a mine or
  a safe cell as safe, and subtracting a truthful sentence from a truthful superset,
  give truthful sentences. Hence every step of the closure procedures keeps the agent
  consistent with the board, and so does a valid observation.
\<close>

lemma truthful_known_mines:
  assumes "truthful g s" and "known_mines s = Some cs" and "c |\<in>| cs"
  shows "c |\<in>| board g"
proof -
  from assms(2) have cs: "cs = cells s" and full: "count s = int (fcard (cells s))"
    by (auto simp add: known_mines_def split: if_splits)
  with assms(1) have "fcard (cells s) \<le> fcard (cells s |\<inter>| board g)"
    by (simp add: truthful_def)
  then have "cells s |\<inter>| board g = cells s"
    by (intro fcard_seteq) auto
  with assms(3) cs show ?thesis by auto
qed

lemma truthful_known_safes:
  assumes "truthful g s" and "known_safes s = Some cs" and "c |\<in>| cs"
  shows "c |\<notin>| board g"
proof -
  from assms(2) have cs: "cs = cells s" and zero: "count s = 0"
    by (auto simp add: known_safes_def split: if_splits)
  with assms(1) have "cells s |\<inter>| board g = {||}"
    by (simp add: truthful_def)
  with assms(3) cs show ?thesis by auto
qed

lemma truthful_mark_mine:
  assumes "truthful g s" and "c |\<in>| board g"
  shows "truthful g (sentence_mark_mine s c)"
proof (cases "c |\<in>| cells s")
  case True
  have eq: "(cells s |-| {|c|}) |\<inter>| board g = (cells s |\<inter>| board g) |-| {|c|}"
    by auto
  have "c |\<in>| cells s |\<inter>| board g" using True assms(2) by simp
  from fcard_Suc_fminus1 [OF this]
  have "int (fcard ((cells s |\<inter>| board g) |-| {|c|})) = int (fcard (cells s |\<inter>| board g)) - 1"
    by linarith
  with assms(1) True show ?thesis
    by (simp add: truthful_def sentence_mark_mine_def eq)
next
  case False
  with assms(1) show ?thesis by (simp add: sentence_mark_mine_def)
qed

lemma truthful_mark_safe:
  assumes "truthful g s" and "c |\<notin>| board g"
  shows "truthful g (sentence_mark_safe s c)"
proof -
  have "(cells s |-| {|c|}) |\<inter>| board g = cells s |\<inter>| board g"
    using assms(2) by auto
  with assms(1) show ?thesis
    by (simp add: truthful_def sentence_mark_safe_def)
qed

lemma truthful_difference:
  assumes "truthful g s1" and "truthful g s2" and "cells s1 |\<subseteq>| cells s2"
  shows "truthful g (Sentence (cells s2 |-| cells s1) (count s2 - count s1))"
proof -
  have eq: "(cells s2 |-| cells s1) |\<inter>| board g =
      (cells s2 |\<inter>| board g) |-| (cells s1 |\<inter>| board g)"
    by auto
  have sub: "cells s1 |\<inter>| board g |\<subseteq>| cells s2 |\<inter>| board g"
    using assms(3) by auto
  have "fcard ((cells s2 |\<inter>| board g) |-| (cells s1 |\<inter>| board g)) =
      fcard (cells s2 |\<inter>| board g) - fcard (cells s1 |\<inter>| board g)"
    by (rule fcard_funion_fsubset [OF sub])
  moreover have "fcard (cells s1 |\<inter>| board g) \<le> fcard (cells s2 |\<inter>| board g)"
    by (rule fcard_mono [OF sub])
  ultimately have "int (fcard ((cells s2 |-| cells s1) |\<inter>| board g)) =
      int (fcard (cells s2 |\<inter>| board g)) - int (fcard (cells s1 |\<inter>| board g))"
    by (simp add: eq)
  with assms(1,2) show ?thesis
    by (auto simp add: truthful_def Sentence_def)
qed

text \<open>
  The bounds of Claim C3 follow from truthfulness alone.
\<close>

lemma truthful_bounds:
  assumes "truthful g s"
  shows "0 \<le> count s \<and> count s \<le> int (fcard (cells s))"
proof -
  have "fcard (cells s |\<inter>| board g) \<le> fcard (cells s)"
    by (rule fcard_mono) auto
  with assms show ?thesis by (simp add: truthful_def)
qed

lemma consistent_mark_mine:
  assumes "consistent g x" and "truthful g s" and "known_mines s = Some (cells s)"
    and "c |\<in>| cells s"
  shows "consistent g (mark_mine x c)"
proof -
  have mine: "c |\<in>| board g"
    by (rule truthful_known_mines [OF assms(2,3,4)])
  have grid: "in_grid (board_height g) (board_width g) c"
    using assms(2,4) by (auto simp add: truthful_def)
  have "truthful g (sentence_mark_mine s' c) \<and>
        cells (sentence_mark_mine s' c) |\<inter>| (finsert c (mines x) |\<union>| safes x) = {||}"
    if "s' \<in> set (knowledge x)" for s'
  proof -
    from that assms(1) have t: "truthful g s'"
      and d: "cells s' |\<inter>| (mines x |\<union>| safes x) = {||}"
      by (auto simp add: consistent_def)
    have "cells (sentence_mark_mine s' c) = cells s' |-| {|c|}"
      by (auto simp add: sentence_mark_mine_def)
    with d have "cells (sentence_mark_mine s' c) |\<inter>| (finsert c (mines x) |\<union>| safes x) = {||}"
      by auto
    with truthful_mark_mine [OF t mine] show ?thesis by simp
  qed
  with assms(1) mine grid show ?thesis
    by (auto simp add: consistent_def mark_mine_def)
qed

lemma consistent_mark_safe:
  assumes "consistent g x" and "truthful g s" and "known_safes s = Some (cells s)"
    and "c |\<in>| cells s"
  shows "consistent g (mark_safe x c)"
proof -
  have safe: "c |\<notin>| board g"
    by (rule truthful_known_safes [OF assms(2,3,4)])
  have "truthful g (sentence_mark_safe s' c) \<and>
        cells (sentence_mark_safe s' c) |\<inter>| (mines x |\<union>| finsert c (safes x)) = {||}"
    if "s' \<in> set (knowledge x)" for s'
  proof -
    from that assms(1) have t: "truthful g s'"
      and d: "cells s' |\<inter>| (mines x |\<union>| safes x) = {||}"
      by (auto simp add: consistent_def)
    have "cells (sentence_mark_safe s' c) = cells s' |-| {|c|}"
      by (auto simp add: sentence_mark_safe_def)
    with d have "cells (sentence_mark_safe s' c) |\<inter>| (mines x |\<union>| finsert c (safes x)) = {||}"
      by auto
    with truthful_mark_safe [OF t safe] show ?thesis by simp
  qed
  with assms(1) safe show ?thesis
    by (auto simp add: consistent_def mark_safe_def)
qed

lemma consistent_remove:
  assumes "consistent g x"
  shows "consistent g (x\<lparr>knowledge := remove1 s (knowledge x)\<rparr>)"
  using assms by (auto simp add: consistent_def dest: notin_set_remove1)

lemma consistent_append:
  assumes "consistent g x" and "s1 \<in> set (knowledge x)" and "s2 \<in> set (knowledge x)"
    and "cells s1 |\<subseteq>| cells s2"
  shows "consistent g
           (x\<lparr>knowledge := knowledge x @ [Sentence (cells s2 |-| cells s1) (count s2 - count s1)]\<rparr>)"
proof -
  from assms(1,2,3) have t1: "truthful g s1" and t2: "truthful g s2"
    and d: "cells s2 |\<inter>| (mines x |\<union>| safes x) = {||}"
    by (auto simp add: consistent_def)
  have "cells (Sentence (cells s2 |-| cells s1) (count s2 - count s1)) |\<inter>|
        (mines x |\<union>| safes x) = {||}"
    using d by (auto simp add: Sentence_def)
  with truthful_difference [OF t1 t2 assms(4)] assms(1) show ?thesis
    by (auto simp add: consistent_def)
qed

lemma closure_consistent:
  assumes "enumerates ord"
  shows "closure_preserves ord (consistent g) (truthful g)"
proof -
  have mem: "c \<in> set (ord S) \<Longrightarrow> c |\<in>| S" for c S
    using assms by (simp add: enumerates_def)
  show ?thesis
    unfolding closure_preserves_def
  proof (intro conjI allI impI)
    fix x s
    assume "consistent g x" and "s \<in> set (knowledge x)"
    then show "truthful g s" by (simp add: consistent_def)
  next
    fix x s
    assume "consistent g x"
    then show "consistent g (x\<lparr>knowledge := remove1 s (knowledge x)\<rparr>)"
      by (rule consistent_remove)
  next
    fix x s c
    assume "truthful g s" and "known_mines s = Some (cells s)"
      and "c \<in> set (ord (cells s))" and "consistent g x"
    then show "consistent g (mark_mine x c)"
      using consistent_mark_mine mem by blast
  next
    fix x s c
    assume "truthful g s" and "known_safes s = Some (cells s)"
      and "c \<in> set (ord (cells s))" and "consistent g x"
    then show "consistent g (mark_safe x c)"
      using consistent_mark_safe mem by blast
  next
    fix x s1 s2
    assume "consistent g x" and "s1 \<in> set (knowledge x)" and "s2 \<in> set (knowledge x)"
      and "cells s1 |\<subseteq>| cells s2"
    then show "truthful g (Sentence (cells s2 |-| cells s1) (count s2 - count s1))"
      using truthful_difference by (simp add: consistent_def)
  next
    fix x s1 s2 s3
    assume "consistent g x" and "s1 \<in> set (knowledge x)" and "s2 \<in> set (knowledge x)"
      and "cells s1 |\<subseteq>| cells s2"
      and "s3 = Sentence (cells s2 |-| cells s1) (count s2 - count s1)"
    then show "consistent g (x\<lparr>knowledge := knowledge x @ [s3]\<rparr>)"
      using consistent_append by simp
  qed
qed

lemma record_observation_size:
  "height (record_observation a c k) = height a \<and> width (record_observation a c k) = width a"
  by (simp add: record_observation_def mark_safe_def Let_def split: option.splits)

lemma truthful_observation:
  assumes "consistent g a" and "valid_probe g c"
  shows "truthful g
           (Sentence (block (height a) (width a) c |-| mines a |-| finsert c (safes a))
              (nearby_mines g c - int (fcard (block (height a) (width a) c |\<inter>| mines a))))"
proof -
  define B where "B = block (height a) (width a) c"
  from assms(1) have size: "height a = board_height g" "width a = board_width g"
    and mines: "mines a |\<subseteq>| board g" and safes: "safes a |\<inter>| board g = {||}"
    by (auto simp add: consistent_def)
  from assms(2) have c: "c |\<notin>| board g" by (simp add: valid_probe_def)
  have near: "nearby_mines g c = int (fcard (B |\<inter>| board g))"
  proof -
    have "neighbours (board_height g) (board_width g) c |\<inter>| board g = B |\<inter>| board g"
      using c by (auto simp add: neighbours_def B_def size)
    then show ?thesis by (simp add: nearby_mines_eq)
  qed
  have sub: "B |\<inter>| mines a |\<subseteq>| B |\<inter>| board g"
    using mines by auto
  have eq: "(B |-| mines a |-| finsert c (safes a)) |\<inter>| board g =
      (B |\<inter>| board g) |-| (B |\<inter>| mines a)"
    using safes c by auto
  have "fcard ((B |\<inter>| board g) |-| (B |\<inter>| mines a)) =
      fcard (B |\<inter>| board g) - fcard (B |\<inter>| mines a)"
    by (rule fcard_funion_fsubset [OF sub])
  moreover have "fcard (B |\<inter>| mines a) \<le> fcard (B |\<inter>| board g)"
    by (rule fcard_mono [OF sub])
  ultimately have cnt: "int (fcard ((B |-| mines a |-| finsert c (safes a)) |\<inter>| board g)) =
      nearby_mines g c - int (fcard (B |\<inter>| mines a))"
    by (simp add: eq near)
  have grid: "fBall (B |-| mines a |-| finsert c (safes a))
      (in_grid (board_height g) (board_width g))"
    by (auto simp add: B_def block_def size)
  from cnt grid show ?thesis
    by (simp add: truthful_def Sentence_def B_def)
qed

lemma consistent_record_observation:
  assumes "consistent g a" and "valid_probe g c"
  shows "consistent g (record_observation a c (nearby_mines g c))"
proof -
  define a' where "a' = record_observation a c (nearby_mines g c)"
  from assms(2) have c: "c |\<notin>| board g"
    and grid: "in_grid (board_height g) (board_width g) c"
    by (simp_all add: valid_probe_def)
  have sets: "moves_made a' = finsert c (moves_made a)" "mines a' = mines a"
    "safes a' = finsert c (safes a)" "height a' = height a" "width a' = width a"
    by (simp_all add: a'_def record_observation_sets record_observation_size)
  have old: "truthful g (sentence_mark_safe s c) \<and>
      cells (sentence_mark_safe s c) |\<inter>| (mines a |\<union>| finsert c (safes a)) = {||}"
    if "s \<in> set (knowledge a)" for s
  proof -
    from that assms(1) have t: "truthful g s"
      and d: "cells s |\<inter>| (mines a |\<union>| safes a) = {||}"
      by (auto simp add: consistent_def)
    have "cells (sentence_mark_safe s c) = cells s |-| {|c|}"
      by (simp add: sentence_mark_safe_def)
    with d have "cells (sentence_mark_safe s c) |\<inter>| (mines a |\<union>| finsert c (safes a)) = {||}"
      by auto
    with truthful_mark_safe [OF t c] show ?thesis by simp
  qed
  have new: "cells (Sentence (block (height a) (width a) c |-| mines a |-| finsert c (safes a)) k)
      |\<inter>| (mines a |\<union>| finsert c (safes a)) = {||}" for k
    by (auto simp add: Sentence_def)
  have know: "\<forall>s \<in> set (knowledge a').
      truthful g s \<and> cells s |\<inter>| (mines a |\<union>| finsert c (safes a)) = {||}"
    unfolding a'_def record_observation_knowledge
    using old new truthful_observation [OF assms] by auto
  from assms(1) c grid know show ?thesis
    unfolding a'_def [symmetric]
    by (auto simp add: consistent_def sets)
qed

lemma consistent_new: "consistent g (MinesweeperAI (board_height g) (board_width g))"
  by (simp add: consistent_def MinesweeperAI_def)

lemma observe_all_consistent:
  assumes "enumerates ord" and "consistent g a" and "list_all (valid_probe g) probes"
    and "observe_all ord a (map (\<lambda>c. (c, nearby_mines g c)) probes) = Some a'"
  shows "consistent g a'"
  using assms(2-)
proof (induction probes arbitrary: a)
  case Nil
  then show ?case by simp
next
  case (Cons c probes)
  from Cons.prems(3) obtain x where
    first: "add_knowledge ord a c (nearby_mines g c) = Some x"
    and rest: "observe_all ord x (map (\<lambda>c. (c, nearby_mines g c)) probes) = Some a'"
    by (auto split: bind_splits)
  have "consistent g (record_observation a c (nearby_mines g c))"
    using Cons.prems(1,2) by (simp add: consistent_record_observation)
  then have "consistent g x"
    by (rule add_knowledge_invariant [OF closure_consistent [OF assms(1)] first])
  with rest Cons.prems(2) show ?case
    using Cons.IH by simp
qed

lemma play_consistent:
  assumes "enumerates ord" and "list_all (valid_probe g) probes"
    and "play ord g probes = Some a"
  shows "consistent g a"
  using observe_all_consistent [OF assms(1) consistent_new assms(2)] assms(3)
  by (simp add: play_def)

section \<open>Termination of constraint derivation on consistent states\<close>

text \<open>
  On an agent that is consistent with the board the double loop of \<^verbatim>\<open>inference\<close>
  terminates, so that every valid observation returns.
\<close>

lemma finite_truthful: "finite {s. truthful g s}"
proof -
  have "{s. truthful g s} \<subseteq>
      (\<lambda>S. Sentence S (int (fcard (S |\<inter>| board g)))) `
        fset (fPow (grid_cells (board_height g) (board_width g)))"
  proof
    fix s
    assume "s \<in> {s. truthful g s}"
    then have t: "truthful g s" by simp
    then have "cells s |\<subseteq>| grid_cells (board_height g) (board_width g)"
      by (auto simp add: truthful_def in_grid_cells)
    moreover have "s = Sentence (cells s) (int (fcard (cells s |\<inter>| board g)))"
      using t by (simp add: truthful_def Sentence_def)
    ultimately show "s \<in> (\<lambda>S. Sentence S (int (fcard (S |\<inter>| board g)))) `
        fset (fPow (grid_cells (board_height g) (board_width g)))"
      by blast
  qed
  then show ?thesis by (rule finite_subset) simp
qed

lemma foldl_mark_mine_sets:
  "mines (foldl mark_mine a xs) = mines a |\<union>| fset_of_list xs \<and>
   safes (foldl mark_mine a xs) = safes a"
  by (induction xs arbitrary: a) (auto simp add: mark_mine_def)

lemma foldl_mark_safe_sets:
  "safes (foldl mark_safe a xs) = safes a |\<union>| fset_of_list xs \<and>
   mines (foldl mark_safe a xs) = mines a"
  by (induction xs arbitrary: a) (auto simp add: mark_safe_def)

lemma enumerates_fset_of_list:
  assumes "enumerates ord"
  shows "fset_of_list (ord S) = S"
  using assms by (auto simp add: enumerates_def fset_of_list.rep_eq intro!: fset_eqI)

lemma unresolved_shrinks:
  assumes "cs \<noteq> {||}" and "cs |\<subseteq>| unresolved g a"
    and "mines a' |\<union>| safes a' = mines a |\<union>| safes a |\<union>| cs"
  shows "fcard (unresolved g a') < fcard (unresolved g a)"
proof (rule pfsubset_fcard_mono)
  from assms(1) obtain c where "c |\<in>| cs" by auto
  with assms(2) have "c |\<in>| unresolved g a" by auto
  moreover have "c |\<notin>| unresolved g a'"
    using \<open>c |\<in>| cs\<close> assms(3) by (auto simp add: unresolved_def)
  moreover have "unresolved g a' |\<subseteq>| unresolved g a"
    using assms(3) by (auto simp add: unresolved_def)
  ultimately show "unresolved g a' |\<subset>| unresolved g a" by auto
qed

lemma unknown_sentences_shrink:
  assumes "truthful g s" and "s \<notin> set ss"
  shows "card ({s. truthful g s} - set (ss @ [s])) < card ({s. truthful g s} - set ss)"
proof -
  have eq: "{s. truthful g s} - set (ss @ [s]) = ({s. truthful g s} - set ss) - {s}"
    by auto
  have mem: "s \<in> {s. truthful g s} - set ss" using assms by simp
  have fin: "finite ({s. truthful g s} - set ss)"
    using finite_truthful by simp
  show ?thesis
    unfolding eq by (rule card_Diff1_less [OF fin mem])
qed

lemma infer_step_decreases:
  assumes ord: "enumerates ord" and a: "consistent g a" and i: "i < length (knowledge a)"
  shows "(infer_measure g (infer_step ord (i, j, a, checkNeed)),
          infer_measure g (i, j, a, checkNeed))
         \<in> less_than <*lex*> less_than <*lex*> less_than <*lex*> less_than"
proof (cases "j < length (knowledge a)")
  case False
  then show ?thesis using i by (simp add: infer_step_def infer_measure_def)
next
  case True
  define s1 where "s1 = knowledge a ! i"
  define s2 where "s2 = knowledge a ! j"
  define s3 where "s3 = Sentence (cells s2 |-| cells s1) (count s2 - count s1)"
  have s1: "s1 \<in> set (knowledge a)" and s2: "s2 \<in> set (knowledge a)"
    using i True by (simp_all add: s1_def s2_def)
  have unfold: "infer_pair ord i j (a, checkNeed) =
      (if cells s1 |\<subseteq>| cells s2 \<and> cells s3 \<noteq> {||} \<and> s3 \<notin> set (knowledge a) then
         (case known_mines s3 of
            Some cs \<Rightarrow> (foldl mark_mine a (ord (cells s3)), True)
          | None \<Rightarrow>
             (case known_safes s3 of
                Some cs \<Rightarrow> (foldl mark_safe a (ord (cells s3)), True)
              | None \<Rightarrow> (a\<lparr>knowledge := knowledge a @ [s3]\<rparr>, checkNeed)))
       else (a, checkNeed))"
    by (simp only: infer_pair_unfold Let_def s1_def s2_def s3_def)
  obtain a' c' where pair: "infer_pair ord i j (a, checkNeed) = (a', c')"
    by (cases "infer_pair ord i j (a, checkNeed)") auto
  have step: "infer_step ord (i, j, a, checkNeed) = (i, j + 1, a', c')"
    by (simp add: infer_step_def True pair)
  show ?thesis
  proof (cases "cells s1 |\<subseteq>| cells s2 \<and> cells s3 \<noteq> {||} \<and> s3 \<notin> set (knowledge a)")
    case False
    then have "a' = a" using unfold pair by (simp only: if_False prod.inject)
    then show ?thesis using True by (simp add: step infer_measure_def)
  next
    case cond: True
    then have sub: "cells s1 |\<subseteq>| cells s2" and ne: "cells s3 \<noteq> {||}"
      and new: "s3 \<notin> set (knowledge a)" by auto
    from a s1 s2 have t1: "truthful g s1" and t2: "truthful g s2"
      and pruned: "cells s2 |\<inter>| (mines a |\<union>| safes a) = {||}"
      by (auto simp add: consistent_def)
    have t3: "truthful g s3"
      unfolding s3_def by (rule truthful_difference [OF t1 t2 sub])
    have cells3: "cells s3 |\<subseteq>| unresolved g a"
      using t2 pruned
      by (auto simp add: s3_def Sentence_def unresolved_def truthful_def in_grid_cells)
    show ?thesis
    proof (cases "known_mines s3")
      case (Some cs)
      then have a': "a' = foldl mark_mine a (ord (cells s3))"
        using unfold pair cond by simp
      have "fcard (unresolved g a') < fcard (unresolved g a)"
        by (rule unresolved_shrinks [OF ne cells3])
           (auto simp add: a' foldl_mark_mine_sets enumerates_fset_of_list [OF ord])
      then show ?thesis by (simp add: step infer_measure_def)
    next
      case None
      note nomine = None
      show ?thesis
      proof (cases "known_safes s3")
        case (Some cs)
        then have a': "a' = foldl mark_safe a (ord (cells s3))"
          using unfold pair cond nomine by simp
        have "fcard (unresolved g a') < fcard (unresolved g a)"
          by (rule unresolved_shrinks [OF ne cells3])
             (auto simp add: a' foldl_mark_safe_sets enumerates_fset_of_list [OF ord])
        then show ?thesis by (simp add: step infer_measure_def)
      next
        case None
        then have a': "a' = a\<lparr>knowledge := knowledge a @ [s3]\<rparr>"
          using unfold pair cond nomine by simp
        have "card ({s. truthful g s} - set (knowledge a @ [s3])) <
            card ({s. truthful g s} - set (knowledge a))"
          by (rule unknown_sentences_shrink [OF t3 new])
        then show ?thesis
          by (simp add: step infer_measure_def a' unresolved_def)
      qed
    qed
  qed
qed

lemma infer_loop_returns:
  assumes ord: "enumerates ord" and a: "consistent g a"
  shows "\<exists>t. while_option infer_cond (infer_step ord) (0, 0, a, False) = Some t"
proof (rule wf_rel_while_option_Some
    [where P = "\<lambda>st. consistent g (fst (snd (snd st)))"
       and R = "inv_image (less_than <*lex*> less_than <*lex*> less_than <*lex*> less_than)
                  (infer_measure g)"])
  show "wf (inv_image (less_than <*lex*> less_than <*lex*> less_than <*lex*> less_than)
              (infer_measure g))"
    by (intro wf_inv_image wf_lex_prod wf_less_than)
next
  fix st :: infer_state
  assume st: "consistent g (fst (snd (snd st))) \<and> infer_cond st"
  obtain i j x checkNeed where eq: "st = (i, j, x, checkNeed)"
    by (cases st) auto
  from st have "consistent g x" and "i < length (knowledge x)"
    by (simp_all add: eq infer_cond_def)
  from infer_step_decreases [OF ord this, of j checkNeed]
  show "(infer_step ord st, st)
      \<in> inv_image (less_than <*lex*> less_than <*lex*> less_than <*lex*> less_than)
          (infer_measure g)"
    by (simp add: eq)
next
  fix st :: infer_state
  assume "consistent g (fst (snd (snd st))) \<and> infer_cond st"
  then show "consistent g (fst (snd (snd (infer_step ord st))))"
    using infer_step_invariant [OF closure_consistent [OF ord]] by blast
next
  show "consistent g (fst (snd (snd (0, 0, a, False))))" using a by simp
qed

lemma inference_returns:
  assumes ord: "enumerates ord" and a: "consistent g a"
  shows "\<exists>a'. inference ord a = Some a'"
proof -
  from infer_loop_returns [OF assms] obtain i j x checkNeed where
    "while_option infer_cond (infer_step ord) (0, 0, a, False) = Some (i, j, x, checkNeed)"
    by (metis prod_cases4)
  moreover obtain y where "additional_check ord x = Some y"
    using additional_check_returns [OF ord] by blast
  ultimately show ?thesis by (simp add: inference_def)
qed

lemma add_knowledge_returns:
  assumes ord: "enumerates ord" and a: "consistent g a" and c: "valid_probe g c"
  shows "\<exists>a'. add_knowledge ord a c (nearby_mines g c) = Some a' \<and> consistent g a'"
proof -
  have recorded: "consistent g (record_observation a c (nearby_mines g c))"
    by (rule consistent_record_observation [OF a c])
  obtain x where
    check: "additional_check ord (record_observation a c (nearby_mines g c)) = Some x"
    using additional_check_returns [OF ord] by blast
  have "consistent g x"
    by (rule additional_check_invariant [OF closure_consistent [OF ord] check recorded])
  from inference_returns [OF ord this] obtain a' where infer: "inference ord x = Some a'"
    by blast
  have run: "add_knowledge ord a c (nearby_mines g c) = Some a'"
    by (simp add: add_knowledge_def check infer)
  moreover have "consistent g a'"
    by (rule add_knowledge_invariant [OF closure_consistent [OF ord] run recorded])
  ultimately show ?thesis by blast
qed

lemma observe_all_returns:
  assumes ord: "enumerates ord" and "consistent g a" and "list_all (valid_probe g) probes"
  shows "\<exists>a'. observe_all ord a (map (\<lambda>c. (c, nearby_mines g c)) probes) = Some a'"
  using assms(2,3)
proof (induction probes arbitrary: a)
  case Nil
  then show ?case by simp
next
  case (Cons c probes)
  from Cons.prems have "valid_probe g c" and rest: "list_all (valid_probe g) probes"
    by simp_all
  from add_knowledge_returns [OF ord Cons.prems(1) this(1)] obtain x where
    "add_knowledge ord a c (nearby_mines g c) = Some x" and "consistent g x"
    by blast
  with Cons.IH [OF _ rest] show ?case by simp
qed

lemma play_returns:
  assumes "enumerates ord" and "list_all (valid_probe g) probes"
  shows "\<exists>a. play ord g probes = Some a"
  using observe_all_returns [OF assms(1) consistent_new assms(2)]
  by (simp add: play_def)

section \<open>Claims C2 and C3: invariants of the knowledge base\<close>

text \<open>
  Claim C2. Every sequence of valid \<^verbatim>\<open>add_knowledge\<close> calls returns, and in the agent
  state it reaches (the list of probes is arbitrary, so this is the state after each
  call) the sets \<^verbatim>\<open>mines\<close> and \<^verbatim>\<open>safes\<close> are disjoint, and the cells of every sentence
  of the knowledge base are disjoint from both.
\<close>

theorem knowledge_base_invariant:
  assumes "enumerates ord" and "list_all (valid_probe g) probes"
  shows "\<exists>a. play ord g probes = Some a \<and>
           mines a |\<inter>| safes a = {||} \<and>
           (\<forall>s \<in> set (knowledge a). cells s |\<inter>| (mines a |\<union>| safes a) = {||})"
proof -
  from play_returns [OF assms] obtain a where run: "play ord g probes = Some a" ..
  have "consistent g a" by (rule play_consistent [OF assms run])
  then have "mines a |\<inter>| safes a = {||} \<and>
      (\<forall>s \<in> set (knowledge a). cells s |\<inter>| (mines a |\<union>| safes a) = {||})"
    by (auto simp add: consistent_def)
  with run show ?thesis by blast
qed

theorem knowledge_base_invariant_witness:
  "enumerates sorted_list_of_fset \<and>
   list_all (valid_probe \<lparr>board_height = 3, board_width = 3, board = {|(0, 0), (0, 2), (2, 1)|}\<rparr>)
     [(0, 1), (2, 0), (1, 2), (1, 0)] \<and>
   play sorted_list_of_fset
     \<lparr>board_height = 3, board_width = 3, board = {|(0, 0), (0, 2), (2, 1)|}\<rparr>
     [(0, 1), (2, 0), (1, 2), (1, 0)] =
   Some \<lparr>height = 3, width = 3, moves_made = {|(0, 1), (2, 0), (1, 2), (1, 0)|},
          mines = {|(0, 0)|}, safes = {|(0, 1), (2, 0), (1, 2), (1, 0)|},
          knowledge =
            [Sentence {|(1, 1), (0, 2)|} 1, Sentence {|(2, 1), (1, 1)|} 1,
             Sentence {|(2, 2), (2, 1), (1, 1), (0, 2)|} 2, Sentence {|(2, 1), (1, 1)|} 1,
             Sentence {|(2, 2), (0, 2)|} 1]\<rparr> \<and>
   {|(0, 0)|} |\<inter>| {|(0, 1), (2, 0), (1, 2), (1, 0)|} = ({||} :: cell fset) \<and>
   list_all (\<lambda>s. cells s |\<inter>| ({|(0, 0)|} |\<union>| {|(0, 1), (2, 0), (1, 2), (1, 0)|}) = {||})
     [Sentence {|(1, 1), (0, 2)|} 1, Sentence {|(2, 1), (1, 1)|} 1,
      Sentence {|(2, 2), (2, 1), (1, 1), (0, 2)|} 2, Sentence {|(2, 1), (1, 1)|} 1,
      Sentence {|(2, 2), (0, 2)|} 1]"
proof -
  have valid: "list_all (valid_probe \<lparr>board_height = 3, board_width = 3, board = {|(0, 0), (0, 2), (2, 1)|}\<rparr>)
     [(0, 1), (2, 0), (1, 2), (1, 0)]"
    by code_simp
  have run: "play sorted_list_of_fset
     \<lparr>board_height = 3, board_width = 3, board = {|(0, 0), (0, 2), (2, 1)|}\<rparr>
     [(0, 1), (2, 0), (1, 2), (1, 0)] =
   Some \<lparr>height = 3, width = 3, moves_made = {|(0, 1), (2, 0), (1, 2), (1, 0)|},
          mines = {|(0, 0)|}, safes = {|(0, 1), (2, 0), (1, 2), (1, 0)|},
          knowledge =
            [Sentence {|(1, 1), (0, 2)|} 1, Sentence {|(2, 1), (1, 1)|} 1,
             Sentence {|(2, 2), (2, 1), (1, 1), (0, 2)|} 2, Sentence {|(2, 1), (1, 1)|} 1,
             Sentence {|(2, 2), (0, 2)|} 1]\<rparr>"
    by code_simp
  from knowledge_base_invariant [OF enumerates_sorted valid]
  have "{|(0, 0)|} |\<inter>| {|(0, 1), (2, 0), (1, 2), (1, 0)|} = ({||} :: cell fset) \<and>
   list_all (\<lambda>s. cells s |\<inter>| ({|(0, 0)|} |\<union>| {|(0, 1), (2, 0), (1, 2), (1, 0)|}) = {||})
     [Sentence {|(1, 1), (0, 2)|} 1, Sentence {|(2, 1), (1, 1)|} 1,
      Sentence {|(2, 2), (2, 1), (1, 1), (0, 2)|} 2, Sentence {|(2, 1), (1, 1)|} 1,
      Sentence {|(2, 2), (0, 2)|} 1]"
    by (simp add: list_all_iff run)
  with enumerates_sorted valid run show ?thesis by blast
qed

lemma infer_visits_invariant:
  assumes pres: "closure_preserves ord I G"
    and "infer_visits ord a0 st" and "I a0"
  shows "I (fst (snd (snd st)))"
  using assms(2)
proof (induction rule: infer_visits.induct)
  case start
  then show ?case using assms(3) by simp
next
  case (step st)
  then show ?case by (simp add: infer_step_invariant [OF pres])
qed

text \<open>
  Claim C3. For every agent state reached by valid observations, every sentence of the
  knowledge base has a count between zero and the number of its cells. The same holds
  throughout the \<^verbatim>\<open>inference\<close> pass of the next valid observation: in every state the
  double loop goes through, of every sentence of the knowledge base and of the sentence
  derived from every pair of sentences the first of which is a subset of the second.
\<close>

theorem subset_subtraction_sound:
  assumes "enumerates ord" and "list_all (valid_probe g) probes"
    and "play ord g probes = Some a"
  shows "(\<forall>s \<in> set (knowledge a). 0 \<le> count s \<and> count s \<le> int (fcard (cells s))) \<and>
         (\<forall>c a1 i j a2 checkNeed.
            valid_probe g c \<longrightarrow>
            additional_check ord (record_observation a c (nearby_mines g c)) = Some a1 \<longrightarrow>
            infer_visits ord a1 (i, j, a2, checkNeed) \<longrightarrow>
            (\<forall>s \<in> set (knowledge a2). 0 \<le> count s \<and> count s \<le> int (fcard (cells s))) \<and>
            (i < length (knowledge a2) \<longrightarrow> j < length (knowledge a2) \<longrightarrow>
             cells (knowledge a2 ! i) |\<subseteq>| cells (knowledge a2 ! j) \<longrightarrow>
             0 \<le> count (Sentence (cells (knowledge a2 ! j) |-| cells (knowledge a2 ! i))
                          (count (knowledge a2 ! j) - count (knowledge a2 ! i))) \<and>
             count (Sentence (cells (knowledge a2 ! j) |-| cells (knowledge a2 ! i))
                          (count (knowledge a2 ! j) - count (knowledge a2 ! i)))
               \<le> int (fcard (cells (Sentence (cells (knowledge a2 ! j) |-| cells (knowledge a2 ! i))
                          (count (knowledge a2 ! j) - count (knowledge a2 ! i)))))))"
proof -
  note pres = closure_consistent [OF assms(1), of g]
  have a: "consistent g a" by (rule play_consistent [OF assms])
  have stored: "\<forall>s \<in> set (knowledge x). 0 \<le> count s \<and> count s \<le> int (fcard (cells s))"
    if "consistent g x" for x
    using that truthful_bounds by (auto simp add: consistent_def)
  have derived: "0 \<le> count (Sentence (cells (knowledge x ! j) |-| cells (knowledge x ! i))
                          (count (knowledge x ! j) - count (knowledge x ! i))) \<and>
             count (Sentence (cells (knowledge x ! j) |-| cells (knowledge x ! i))
                          (count (knowledge x ! j) - count (knowledge x ! i)))
               \<le> int (fcard (cells (Sentence (cells (knowledge x ! j) |-| cells (knowledge x ! i))
                          (count (knowledge x ! j) - count (knowledge x ! i)))))"
    if "consistent g x" and "i < length (knowledge x)" and "j < length (knowledge x)"
      and "cells (knowledge x ! i) |\<subseteq>| cells (knowledge x ! j)" for x i j
  proof -
    from that have "truthful g (knowledge x ! i)" and "truthful g (knowledge x ! j)"
      by (simp_all add: consistent_def)
    from truthful_difference [OF this that(4)] show ?thesis
      by (rule truthful_bounds)
  qed
  have visited: "consistent g a2"
    if "valid_probe g c"
      and "additional_check ord (record_observation a c (nearby_mines g c)) = Some a1"
      and "infer_visits ord a1 (i, j, a2, checkNeed)" for c a1 i j a2 checkNeed
  proof -
    have "consistent g (record_observation a c (nearby_mines g c))"
      by (rule consistent_record_observation [OF a that(1)])
    then have "consistent g a1"
      by (rule additional_check_invariant [OF pres that(2)])
    from infer_visits_invariant [OF pres that(3) this] show ?thesis by simp
  qed
  show ?thesis
    using stored [OF a] stored [OF visited] derived [OF visited] by blast
qed

theorem subset_subtraction_sound_witness:
  "enumerates sorted_list_of_fset \<and>
   list_all (valid_probe \<lparr>board_height = 2, board_width = 3, board = {|(1, 0), (1, 2)|}\<rparr>)
     [(0, 0), (0, 1)] \<and>
   play sorted_list_of_fset \<lparr>board_height = 2, board_width = 3, board = {|(1, 0), (1, 2)|}\<rparr>
     [(0, 0)] =
   Some \<lparr>height = 2, width = 3, moves_made = {|(0, 0)|}, mines = {||}, safes = {|(0, 0)|},
          knowledge = [Sentence {|(0, 1), (1, 0), (1, 1)|} 1]\<rparr> \<and>
   additional_check sorted_list_of_fset
     (record_observation
        \<lparr>height = 2, width = 3, moves_made = {|(0, 0)|}, mines = {||}, safes = {|(0, 0)|},
           knowledge = [Sentence {|(0, 1), (1, 0), (1, 1)|} 1]\<rparr>
        (0, 1)
        (nearby_mines \<lparr>board_height = 2, board_width = 3, board = {|(1, 0), (1, 2)|}\<rparr> (0, 1))) =
   Some \<lparr>height = 2, width = 3, moves_made = {|(0, 0), (0, 1)|}, mines = {||},
          safes = {|(0, 0), (0, 1)|},
          knowledge = [Sentence {|(1, 0), (1, 1)|} 1,
                       Sentence {|(0, 2), (1, 0), (1, 1), (1, 2)|} 2]\<rparr> \<and>
   0 \<le> count (Sentence ({|(0, 2), (1, 0), (1, 1), (1, 2)|} |-| {|(1, 0), (1, 1)|}) (2 - 1)) \<and>
   count (Sentence ({|(0, 2), (1, 0), (1, 1), (1, 2)|} |-| {|(1, 0), (1, 1)|}) (2 - 1))
     \<le> int (fcard (cells (Sentence ({|(0, 2), (1, 0), (1, 1), (1, 2)|} |-| {|(1, 0), (1, 1)|})
                        (2 - 1))))"
proof -
  let ?g = "\<lparr>board_height = 2, board_width = 3, board = {|(1, 0), (1, 2)|}\<rparr>"
  let ?a = "\<lparr>height = 2, width = 3, moves_made = {|(0, 0)|}, mines = {||}, safes = {|(0, 0)|},
          knowledge = [Sentence {|(0, 1), (1, 0), (1, 1)|} 1]\<rparr>"
  let ?a1 = "\<lparr>height = 2, width = 3, moves_made = {|(0, 0), (0, 1)|}, mines = {||},
          safes = {|(0, 0), (0, 1)|},
          knowledge = [Sentence {|(1, 0), (1, 1)|} 1,
                       Sentence {|(0, 2), (1, 0), (1, 1), (1, 2)|} 2]\<rparr>"
  have valid2: "list_all (valid_probe ?g) [(0, 0), (0, 1)]" by code_simp
  then have valid: "list_all (valid_probe ?g) [(0, 0)]" and probe: "valid_probe ?g (0, 1)"
    by simp_all
  have run: "play sorted_list_of_fset ?g [(0, 0)] = Some ?a" by code_simp
  have check: "additional_check sorted_list_of_fset
      (record_observation ?a (0, 1) (nearby_mines ?g (0, 1))) = Some ?a1"
    by code_simp
  have visit: "infer_visits sorted_list_of_fset ?a1 (0, 1, ?a1, False)"
    using infer_visits.step [OF infer_visits.start [of sorted_list_of_fset ?a1]]
    by (simp add: infer_cond_def infer_step_def infer_pair_unfold Sentence_def)
  have sub: "cells (knowledge ?a1 ! 0) |\<subseteq>| cells (knowledge ?a1 ! 1)"
    by (simp add: Sentence_def)
  from subset_subtraction_sound [OF enumerates_sorted valid run, THEN conjunct2, rule_format,
      OF probe check visit, THEN conjunct2, rule_format, OF _ _ sub]
  have "0 \<le> count (Sentence (cells (knowledge ?a1 ! 1) |-| cells (knowledge ?a1 ! 0))
                      (count (knowledge ?a1 ! 1) - count (knowledge ?a1 ! 0))) \<and>
        count (Sentence (cells (knowledge ?a1 ! 1) |-| cells (knowledge ?a1 ! 0))
                      (count (knowledge ?a1 ! 1) - count (knowledge ?a1 ! 0)))
          \<le> int (fcard (cells (Sentence (cells (knowledge ?a1 ! 1) |-| cells (knowledge ?a1 ! 0))
                      (count (knowledge ?a1 ! 1) - count (knowledge ?a1 ! 0)))))"
    by simp
  then have "0 \<le> count (Sentence ({|(0, 2), (1, 0), (1, 1), (1, 2)|} |-| {|(1, 0), (1, 1)|}) (2 - 1)) \<and>
   count (Sentence ({|(0, 2), (1, 0), (1, 1), (1, 2)|} |-| {|(1, 0), (1, 1)|}) (2 - 1))
     \<le> int (fcard (cells (Sentence ({|(0, 2), (1, 0), (1, 1), (1, 2)|} |-| {|(1, 0), (1, 1)|})
                        (2 - 1))))"
    by (simp add: Sentence_def)
  with enumerates_sorted valid2 run check show ?thesis by blast
qed

section \<open>Claim C8: the random move\<close>

lemma random_search_returns:
  assumes "random_search a draws = Returns r"
  shows "\<exists>c. r = Some c \<and> c \<in> set draws \<and> c |\<notin>| moves_made a |\<union>| mines a"
  using assms by (induction draws) (auto split: if_splits)

lemma random_search_no_error: "random_search a draws \<noteq> ValueError"
  by (induction draws) auto

lemma random_search_finds:
  assumes "c \<in> set draws" and "c |\<notin>| moves_made a |\<union>| mines a"
  shows "\<exists>c'. random_search a draws = Returns (Some c')"
  using assms by (induction draws) auto

lemma consistent_guard:
  assumes "consistent g a" and "0 \<le> board_height g" and "0 \<le> board_width g"
  shows "int (fcard (moves_made a)) + int (fcard (mines a)) < height a * width a \<longleftrightarrow>
         \<not> (\<forall>c. in_grid (height a) (width a) c \<longrightarrow> c |\<in>| moves_made a |\<union>| mines a)"
proof -
  define U where "U = moves_made a |\<union>| mines a"
  from assms(1) have size: "height a = board_height g" "width a = board_width g"
    by (simp_all add: consistent_def)
  from assms(1) have "moves_made a |\<inter>| mines a = {||}"
    by (auto simp add: consistent_def)
  then have card: "fcard U = fcard (moves_made a) + fcard (mines a)"
    unfolding U_def by (rule fcard_funion_disjoint)
  from assms(1) have sub: "U |\<subseteq>| grid_cells (height a) (width a)"
    by (auto simp add: consistent_def U_def in_grid_cells size)
  have total: "int (fcard (grid_cells (height a) (width a))) = height a * width a"
    using assms(2,3) by (simp add: fcard_grid_cells size)
  have "fcard U < fcard (grid_cells (height a) (width a)) \<longleftrightarrow>
        U \<noteq> grid_cells (height a) (width a)"
    using sub by (metis fcard_seteq less_irrefl not_le_imp_less)
  also have "\<dots> \<longleftrightarrow> \<not> (\<forall>c. in_grid (height a) (width a) c \<longrightarrow> c |\<in>| U)"
    using sub by (auto simp add: in_grid_cells [symmetric])
  finally have "fcard U < fcard (grid_cells (height a) (width a)) \<longleftrightarrow>
      \<not> (\<forall>c. in_grid (height a) (width a) c \<longrightarrow> c |\<in>| U)" .
  moreover have "int (fcard (moves_made a)) + int (fcard (mines a)) < height a * width a \<longleftrightarrow>
      fcard U < fcard (grid_cells (height a) (width a))"
    using card total by linarith
  ultimately show ?thesis by (simp only: U_def)
qed

text \<open>
  Claim C8. For every agent state reached by valid observations on a grid whose height
  and width are not negative, and for every sequence of draws that \<^verbatim>\<open>randrange\<close> can
  produce: \<^verbatim>\<open>make_random_move\<close> returns nothing if and only if every cell of the grid is
  in \<^verbatim>\<open>moves_made\<close> or in \<^verbatim>\<open>mines\<close>; a cell it returns is a cell of the grid in neither
  set; it raises no error; it returns a cell as soon as a draw hits a cell in neither
  set; and it leaves the agent as it was.
\<close>

theorem random_move_contract:
  assumes "enumerates ord" and "list_all (valid_probe g) probes"
    and "play ord g probes = Some a"
    and "0 \<le> board_height g" and "0 \<le> board_width g"
    and "list_all (in_grid (height a) (width a)) draws"
  shows "(fst (make_random_move a draws) = Returns None \<longleftrightarrow>
            (\<forall>c. in_grid (height a) (width a) c \<longrightarrow> c |\<in>| moves_made a |\<union>| mines a)) \<and>
         (\<forall>c. fst (make_random_move a draws) = Returns (Some c) \<longrightarrow>
            in_grid (height a) (width a) c \<and> c |\<notin>| moves_made a \<and> c |\<notin>| mines a) \<and>
         fst (make_random_move a draws) \<noteq> ValueError \<and>
         ((\<exists>c \<in> set draws. c |\<notin>| moves_made a |\<union>| mines a) \<longrightarrow>
            (\<exists>c. fst (make_random_move a draws) = Returns (Some c))) \<and>
         snd (make_random_move a draws) = a"
proof -
  have a: "consistent g a" by (rule play_consistent [OF assms(1,2,3)])
  then have size: "height a = board_height g" "width a = board_width g"
    by (simp_all add: consistent_def)
  note guard = consistent_guard [OF a assms(4,5)]
  have draws: "in_grid (height a) (width a) c" if "c \<in> set draws" for c
    using assms(6) that by (simp add: list_all_iff)
  show ?thesis
  proof (cases "int (fcard (moves_made a)) + int (fcard (mines a)) < height a * width a")
    case False
    then have covered: "\<forall>c. in_grid (height a) (width a) c \<longrightarrow> c |\<in>| moves_made a |\<union>| mines a"
      using guard by simp
    have "make_random_move a draws = (Returns None, a)"
      using False by (simp add: make_random_move_def)
    with covered draws show ?thesis by auto
  next
    case True
    then have free: "\<not> (\<forall>c. in_grid (height a) (width a) c \<longrightarrow> c |\<in>| moves_made a |\<union>| mines a)"
      using guard by simp
    from True assms(4,5) have "0 < height a * width a"
      by (smt (verit) of_nat_0_le_iff)
    with assms(4,5) have "\<not> (height a \<le> 0 \<or> width a \<le> 0)"
      by (auto simp add: size zero_less_mult_iff)
    with True have eq: "make_random_move a draws = (random_search a draws, a)"
      by (simp add: make_random_move_def)
    have none: "random_search a draws \<noteq> Returns None"
      using random_search_returns by fastforce
    have some: "in_grid (height a) (width a) c \<and> c |\<notin>| moves_made a \<and> c |\<notin>| mines a"
      if "random_search a draws = Returns (Some c)" for c
      using random_search_returns [OF that] draws by auto
    have finds: "\<exists>c. random_search a draws = Returns (Some c)"
      if "\<exists>c \<in> set draws. c |\<notin>| moves_made a |\<union>| mines a"
      using that random_search_finds by blast
    show ?thesis
      unfolding eq fst_conv snd_conv
      using free none some finds random_search_no_error by blast
  qed
qed

theorem random_move_contract_witness:
  "enumerates sorted_list_of_fset \<and>
   list_all (valid_probe \<lparr>board_height = 1, board_width = 2, board = {|(0, 1)|}\<rparr>) [(0, 0)] \<and>
   play sorted_list_of_fset \<lparr>board_height = 1, board_width = 2, board = {|(0, 1)|}\<rparr> [(0, 0)] =
     Some \<lparr>height = 1, width = 2, moves_made = {|(0, 0)|}, mines = {|(0, 1)|},
            safes = {|(0, 0)|}, knowledge = []\<rparr> \<and>
   fst (make_random_move
          \<lparr>height = 1, width = 2, moves_made = {|(0, 0)|}, mines = {|(0, 1)|},
             safes = {|(0, 0)|}, knowledge = []\<rparr> [(0, 1), (0, 0)]) = Returns None \<and>
   list_all (valid_probe \<lparr>board_height = 1, board_width = 3, board = {|(0, 1)|}\<rparr>) [(0, 0)] \<and>
   play sorted_list_of_fset \<lparr>board_height = 1, board_width = 3, board = {|(0, 1)|}\<rparr> [(0, 0)] =
     Some \<lparr>height = 1, width = 3, moves_made = {|(0, 0)|}, mines = {|(0, 1)|},
            safes = {|(0, 0)|}, knowledge = []\<rparr> \<and>
   fst (make_random_move
          \<lparr>height = 1, width = 3, moves_made = {|(0, 0)|}, mines = {|(0, 1)|},
             safes = {|(0, 0)|}, knowledge = []\<rparr> [(0, 1), (0, 2)]) = Returns (Some (0, 2))"
proof -
  let ?g2 = "\<lparr>board_height = 1, board_width = 2, board = {|(0, 1)|}\<rparr>"
  let ?a2 = "\<lparr>height = 1, width = 2, moves_made = {|(0, 0)|}, mines = {|(0, 1)|},
            safes = {|(0, 0)|}, knowledge = []\<rparr>"
  let ?g3 = "\<lparr>board_height = 1, board_width = 3, board = {|(0, 1)|}\<rparr>"
  let ?a3 = "\<lparr>height = 1, width = 3, moves_made = {|(0, 0)|}, mines = {|(0, 1)|},
            safes = {|(0, 0)|}, knowledge = []\<rparr>"
  have valid2: "list_all (valid_probe ?g2) [(0, 0)]" by code_simp
  have run2: "play sorted_list_of_fset ?g2 [(0, 0)] = Some ?a2" by code_simp
  have draws2: "list_all (in_grid (height ?a2) (width ?a2)) [(0, 1), (0, 0)]" by code_simp
  have valid3: "list_all (valid_probe ?g3) [(0, 0)]" by code_simp
  have run3: "play sorted_list_of_fset ?g3 [(0, 0)] = Some ?a3" by code_simp
  have draws3: "list_all (in_grid (height ?a3) (width ?a3)) [(0, 1), (0, 2)]" by code_simp
  have covered: "\<forall>c. in_grid (height ?a2) (width ?a2) c \<longrightarrow> c |\<in>| moves_made ?a2 |\<union>| mines ?a2"
    by (auto simp add: in_grid_def)
  have hit: "\<exists>c \<in> set [(0, 1), (0, 2)]. c |\<notin>| moves_made ?a3 |\<union>| mines ?a3"
    by simp
  from random_move_contract [OF enumerates_sorted valid2 run2 _ _ draws2] covered
  have none: "fst (make_random_move ?a2 [(0, 1), (0, 0)]) = Returns None"
    by simp
  from random_move_contract [OF enumerates_sorted valid3 run3 _ _ draws3] hit
  obtain c where c: "fst (make_random_move ?a3 [(0, 1), (0, 2)]) = Returns (Some c)"
    by auto
  moreover have "fst (make_random_move ?a3 [(0, 1), (0, 2)]) = Returns (Some (0, 2))"
    by code_simp
  ultimately show ?thesis
    using enumerates_sorted valid2 run2 none valid3 run3 by blast
qed

section \<open>Claim C1: one observation does not saturate the closure\<close>

text \<open>
  Claim C1 says that, after \<^verbatim>\<open>add_knowledge\<close> has returned, running \<^verbatim>\<open>additional_check\<close>
  and then \<^verbatim>\<open>inference\<close> again changes nothing. The code runs \<^verbatim>\<open>inference\<close> once, and
  its double loop does not come back to a pair whose sentences shrink after the outer
  loop has passed them. On the 3 by 4 board with mines in the top row and at \<open>(1, 0)\<close> and
  \<open>(1, 1)\<close>, after the valid observations of \<open>(2, 0)\<close>, \<open>(1, 3)\<close>, \<open>(1, 2)\<close> and \<open>(2, 2)\<close> the
  knowledge base holds the sentences \<open>{(1, 0), (1, 1), (2, 1)} = 2\<close> and
  \<open>{(1, 1), (2, 1)} = 1\<close> while \<open>(1, 0)\<close> is not in \<^verbatim>\<open>mines\<close>. A second
  \<^verbatim>\<open>additional_check\<close> changes nothing, and the \<^verbatim>\<open>inference\<close> that follows it marks
  \<open>(1, 0)\<close> as a mine.
\<close>

theorem closure_not_saturated:
  "play sorted_list_of_fset
     \<lparr>board_height = 3, board_width = 4,
        board = {|(0, 0), (0, 1), (0, 2), (0, 3), (1, 0), (1, 1)|}\<rparr>
     [(2, 0), (1, 3), (1, 2), (2, 2)] =
   Some \<lparr>height = 3, width = 4, moves_made = {|(2, 0), (1, 3), (1, 2), (2, 2)|},
          mines = {|(0, 1), (0, 2), (0, 3)|},
          safes = {|(2, 0), (1, 3), (1, 2), (2, 2), (2, 3)|},
          knowledge =
            [Sentence {|(1, 0), (1, 1), (2, 1)|} 2, Sentence {|(1, 1), (2, 1)|} 1,
             Sentence {|(1, 1), (2, 1)|} 1, Sentence {|(1, 1), (2, 1)|} 1]\<rparr> \<and>
   Option.bind
     (additional_check sorted_list_of_fset
        \<lparr>height = 3, width = 4, moves_made = {|(2, 0), (1, 3), (1, 2), (2, 2)|},
           mines = {|(0, 1), (0, 2), (0, 3)|},
           safes = {|(2, 0), (1, 3), (1, 2), (2, 2), (2, 3)|},
           knowledge =
             [Sentence {|(1, 0), (1, 1), (2, 1)|} 2, Sentence {|(1, 1), (2, 1)|} 1,
              Sentence {|(1, 1), (2, 1)|} 1, Sentence {|(1, 1), (2, 1)|} 1]\<rparr>)
     (inference sorted_list_of_fset) =
   Some \<lparr>height = 3, width = 4, moves_made = {|(2, 0), (1, 3), (1, 2), (2, 2)|},
          mines = {|(0, 1), (0, 2), (0, 3), (1, 0)|},
          safes = {|(2, 0), (1, 3), (1, 2), (2, 2), (2, 3)|},
          knowledge =
            [Sentence {|(1, 1), (2, 1)|} 1, Sentence {|(1, 1), (2, 1)|} 1,
             Sentence {|(1, 1), (2, 1)|} 1, Sentence {|(1, 1), (2, 1)|} 1]\<rparr> \<and>
   additional_check sorted_list_of_fset
     \<lparr>height = 3, width = 4, moves_made = {|(2, 0), (1, 3), (1, 2), (2, 2)|},
        mines = {|(0, 1), (0, 2), (0, 3)|},
        safes = {|(2, 0), (1, 3), (1, 2), (2, 2), (2, 3)|},
        knowledge =
          [Sentence {|(1, 0), (1, 1), (2, 1)|} 2, Sentence {|(1, 1), (2, 1)|} 1,
           Sentence {|(1, 1), (2, 1)|} 1, Sentence {|(1, 1), (2, 1)|} 1]\<rparr> =
   Some \<lparr>height = 3, width = 4, moves_made = {|(2, 0), (1, 3), (1, 2), (2, 2)|},
          mines = {|(0, 1), (0, 2), (0, 3)|},
          safes = {|(2, 0), (1, 3), (1, 2), (2, 2), (2, 3)|},
          knowledge =
            [Sentence {|(1, 0), (1, 1), (2, 1)|} 2, Sentence {|(1, 1), (2, 1)|} 1,
             Sentence {|(1, 1), (2, 1)|} 1, Sentence {|(1, 1), (2, 1)|} 1]\<rparr> \<and>
   list_all (valid_probe
     \<lparr>board_height = 3, board_width = 4,
        board = {|(0, 0), (0, 1), (0, 2), (0, 3), (1, 0), (1, 1)|}\<rparr>)
     [(2, 0), (1, 3), (1, 2), (2, 2)] \<and>
   map (nearby_mines
     \<lparr>board_height = 3, board_width = 4,
        board = {|(0, 0), (0, 1), (0, 2), (0, 3), (1, 0), (1, 1)|}\<rparr>)
     [(2, 0), (1, 3), (1, 2), (2, 2)] = [2, 2, 4, 1]"
  by code_simp

end
